theory Spec2Isabelle
  imports Complex_Main "HOL-Library.Multiset"
begin

section \<open>Graphs, as the solve loop uses them\<close>

text \<open>
  Vertices are Python integers (the loader numbers them from 1). An edge is a pair of
  vertices. A graph value lists its vertices in the order \<open>G.nodes()\<close> enumerates them
  and its edges in the order \<open>G.edges()\<close> enumerates them, each undirected edge once, in
  the orientation the enumeration reports.
\<close>

type_synonym node = int
type_synonym edge = "node \<times> node"

record graph =
  nodes :: "node list"
  edges :: "edge list"

text \<open>\<open>tuple(sorted(e))\<close> on a pair of integers.\<close>

fun sorted_tuple :: "edge \<Rightarrow> edge" where
  "sorted_tuple (u, v) = (if v < u then (v, u) else (u, v))"

text \<open>
  The invariants every \<open>networkx.Graph\<close> keeps: no vertex twice, every endpoint of an
  edge is a vertex, and no undirected edge twice.
\<close>

definition wf_graph :: "graph \<Rightarrow> bool" where
  "wf_graph G \<longleftrightarrow>
     distinct (nodes G) \<and>
     (\<forall>(u, v) \<in> set (edges G). u \<in> set (nodes G) \<and> v \<in> set (nodes G)) \<and>
     distinct (map sorted_tuple (edges G))"

definition number_of_nodes :: "graph \<Rightarrow> int" where
  "number_of_nodes G = int (length (nodes G))"

definition number_of_edges :: "graph \<Rightarrow> int" where
  "number_of_edges G = int (length (edges G))"

text \<open>\<open>G.degree(v)\<close>: the number of edge ends at \<open>v\<close>; a self-loop counts twice.\<close>

definition degree :: "graph \<Rightarrow> node \<Rightarrow> int" where
  "degree G v =
     int (length (filter (\<lambda>e. fst e = v) (edges G)) + length (filter (\<lambda>e. snd e = v) (edges G)))"

text \<open>\<open>G[v]\<close>: the neighbours of \<open>v\<close>.\<close>

definition neighbors :: "graph \<Rightarrow> node \<Rightarrow> node list" where
  "neighbors G v =
     map snd (filter (\<lambda>e. fst e = v) (edges G)) @ map fst (filter (\<lambda>e. snd e = v) (edges G))"

text \<open>\<open>nx.Graph()\<close>, \<open>add_node\<close>, \<open>add_edge\<close> and the two bulk insertions.\<close>

definition empty_graph :: graph where
  "empty_graph = \<lparr>nodes = [], edges = []\<rparr>"

definition add_node :: "node \<Rightarrow> graph \<Rightarrow> graph" where
  "add_node v G = (if v \<in> set (nodes G) then G else G\<lparr>nodes := nodes G @ [v]\<rparr>)"

definition has_edge :: "graph \<Rightarrow> edge \<Rightarrow> bool" where
  "has_edge G e \<longleftrightarrow> sorted_tuple e \<in> set (map sorted_tuple (edges G))"

definition add_edge :: "edge \<Rightarrow> graph \<Rightarrow> graph" where
  "add_edge e G =
     (let G' = add_node (snd e) (add_node (fst e) G)
      in if has_edge G' e then G' else G'\<lparr>edges := edges G' @ [e]\<rparr>)"

definition add_nodes_from :: "node list \<Rightarrow> graph \<Rightarrow> graph" where
  "add_nodes_from vs G = foldl (\<lambda>H v. add_node v H) G vs"

definition add_edges_from :: "edge list \<Rightarrow> graph \<Rightarrow> graph" where
  "add_edges_from es G = foldl (\<lambda>H e. add_edge e H) G es"

subsection \<open>Connectivity\<close>

text \<open>
  \<open>_plain_bfs(G, v)\<close>: the vertices reachable from \<open>v\<close>. One round adds the neighbours
  of everything found so far; as many rounds as the graph has vertices reach the closure.
\<close>

definition bfs_round :: "graph \<Rightarrow> node list \<Rightarrow> node list" where
  "bfs_round G vs = remdups (vs @ concat (map (neighbors G) vs))"

primrec bfs_rounds :: "graph \<Rightarrow> nat \<Rightarrow> node list \<Rightarrow> node list" where
  "bfs_rounds G 0 vs = vs"
| "bfs_rounds G (Suc k) vs = bfs_rounds G k (bfs_round G vs)"

definition plain_bfs :: "graph \<Rightarrow> node \<Rightarrow> node list" where
  "plain_bfs G v = bfs_rounds G (length (nodes G)) [v]"

datatype error = KeyError | StopIteration | ValueError | NetworkXPointlessConcept

text \<open>
  \<open>nx.is_connected(G)\<close> raises on the graph without vertices and otherwise compares the
  size of the component of the first vertex with the number of vertices.
\<close>

definition is_connected :: "graph \<Rightarrow> error + bool" where
  "is_connected G =
     (case nodes G of
        [] \<Rightarrow> Inl NetworkXPointlessConcept
      | v # _ \<Rightarrow> Inr (length (plain_bfs G v) = length (nodes G)))"

text \<open>
  \<open>nx.connected_components(G)\<close>: walk the vertices in order; each vertex not seen yet
  starts a new component.
\<close>

fun components_from :: "graph \<Rightarrow> node list \<Rightarrow> node list \<Rightarrow> node list list" where
  "components_from G seen [] = []"
| "components_from G seen (v # vs) =
     (if v \<in> set seen then components_from G seen vs
      else (let c = plain_bfs G v in c # components_from G (seen @ c) vs))"

definition connected_components :: "graph \<Rightarrow> node list list" where
  "connected_components G = components_from G [] (nodes G)"

text \<open>
  \<open>nx.bridges(G)\<close>, by its contract: the edges whose removal separates their two
  endpoints.
\<close>

definition remove_edge :: "edge \<Rightarrow> graph \<Rightarrow> graph" where
  "remove_edge e G = G\<lparr>edges := filter (\<lambda>f. sorted_tuple f \<noteq> sorted_tuple e) (edges G)\<rparr>"

definition bridges :: "graph \<Rightarrow> edge list" where
  "bridges G = filter (\<lambda>e. snd e \<notin> set (plain_bfs (remove_edge e G) (fst e))) (edges G)"

section \<open>The structure analyser\<close>

text \<open>
  The bridges and the partition by degree. The list \<open>V3\<close> stays empty and the parameter
  \<open>k\<close> of the source is not read.
\<close>

record partitions =
  V01 :: "node list"
  V2 :: "node list"
  V3 :: "node list"

definition analyser_structure :: "graph \<Rightarrow> edge list \<times> partitions" where
  "analyser_structure G =
     (bridges G,
      \<lparr>V01 = filter (\<lambda>v. degree G v \<le> 2) (nodes G),
       V2 = filter (\<lambda>v. \<not> degree G v \<le> 2) (nodes G),
       V3 = []\<rparr>)"

section \<open>The integer program of one iteration\<close>

text \<open>
  A constraint \<open>Constraint es r c ys\<close> reads: the sum of the selection variables
  \<open>x[e]\<close> over \<open>es\<close> is in relation \<open>r\<close> with \<open>c\<close> plus the sum of \<open>k * y[v]\<close> over the
  pairs \<open>(k, v)\<close> of \<open>ys\<close>.
\<close>

datatype relation = Equals | AtMost

datatype constraint = Constraint "edge list" relation int "(int \<times> node) list"

datatype sense = LpMinimize | LpMaximize

record milp =
  sense :: sense
  x_keys :: "edge list"
  y_keys :: "node list"
  objective :: "node list"
  constraints :: "constraint list"

text \<open>What the solver leaves behind: \<open>prob.status\<close> and the values of the variables.\<close>

record solution =
  status :: int
  x_value :: "edge \<Rightarrow> int"
  y_value :: "node \<Rightarrow> int"

fun holds :: "solution \<Rightarrow> constraint \<Rightarrow> bool" where
  "holds s (Constraint es r c ys) =
     (let l = sum_list (map (x_value s) es);
          b = c + sum_list (map (\<lambda>(k, v). k * y_value s v) ys)
      in case r of Equals \<Rightarrow> l = b | AtMost \<Rightarrow> l \<le> b)"

definition feasible :: "milp \<Rightarrow> solution \<Rightarrow> bool" where
  "feasible m s \<longleftrightarrow>
     list_all (holds s) (constraints m) \<and>
     list_all (\<lambda>e. x_value s e = 0 \<or> x_value s e = 1) (x_keys m) \<and>
     list_all (\<lambda>v. y_value s v = 0 \<or> y_value s v = 1) (y_keys m)"

text \<open>
  The solver is a parameter: given the iteration number and the model it returns a
  status and values. It keeps its contract when every answer of status 1 (optimal)
  satisfies the model it was given. That the answer also minimises the objective is not
  used by any property below.
\<close>

type_synonym solver = "nat \<Rightarrow> milp \<Rightarrow> solution"

definition sound_solver :: "solver \<Rightarrow> bool" where
  "sound_solver solve \<longleftrightarrow> (\<forall>i m. status (solve i m) = 1 \<longrightarrow> feasible m (solve i m))"

definition aretes_du_cycle :: "node list \<Rightarrow> edge list" where
  "aretes_du_cycle cycle =
     map (\<lambda>i. sorted_tuple (cycle ! i, cycle ! ((i + 1) mod length cycle))) [0..<length cycle]"

definition all_edges :: "graph \<Rightarrow> edge list" where
  "all_edges G = map sorted_tuple (edges G)"

definition incidentes :: "graph \<Rightarrow> node \<Rightarrow> edge list" where
  "incidentes G i = filter (\<lambda>e. i = fst e \<or> i = snd e) (all_edges G)"

text \<open>Constraint (4): one per cycle of the basis. \<open>x[e]\<close> raises on an unknown key.\<close>

fun cycle_constraints :: "edge list \<Rightarrow> node list list \<Rightarrow> error + constraint list" where
  "cycle_constraints xs [] = Inr []"
| "cycle_constraints xs (cycle # rest) =
     (let a = aretes_du_cycle cycle
      in if \<not> list_all (\<lambda>e. e \<in> set xs) a then Inl KeyError
         else (case cycle_constraints xs rest of
                 Inl err \<Rightarrow> Inl err
               | Inr cs \<Rightarrow> Inr (Constraint a AtMost (int (length a) - 1) [] # cs)))"

text \<open>
  Constraint (2): bridges and forced edges. The source walks \<open>set(ponts + edges_forcees)\<close>,
  whose order is not specified; the model walks it in order of first occurrence, and
  nothing below depends on the order of these constraints.
\<close>

definition forced_constraints :: "edge list \<Rightarrow> edge list \<Rightarrow> edge list \<Rightarrow> constraint list" where
  "forced_constraints xs ponts edges_forcees =
     map (\<lambda>e. Constraint [sorted_tuple e] Equals 1 [])
       (filter (\<lambda>e. sorted_tuple e \<in> set xs) (remdups (ponts @ edges_forcees)))"

text \<open>Constraints (5) and (6): the degree cap of each vertex.\<close>

definition degree_constraint :: "graph \<Rightarrow> partitions \<Rightarrow> node \<Rightarrow> constraint" where
  "degree_constraint G parts i =
     (if i \<in> set (V2 parts) then Constraint (incidentes G i) AtMost 2 [(degree G i - 2, i)]
      else if i \<in> set (V01 parts) then Constraint (incidentes G i) AtMost 2 []
      else Constraint (incidentes G i) AtMost (degree G i) [])"

text \<open>
  The model that \<open>resoudre_ilp_iteration\<close> builds before it calls the solver.
  \<open>cycle_basis\<close> stands for \<open>nx.cycle_basis\<close>.
\<close>

definition build_model ::
  "(graph \<Rightarrow> node list list) \<Rightarrow> graph \<Rightarrow> partitions \<Rightarrow> edge list \<Rightarrow> edge list \<Rightarrow> error + milp" where
  "build_model cycle_basis G parts ponts edges_forcees =
     (let xs = all_edges G
      in case cycle_constraints xs (cycle_basis G) of
           Inl err \<Rightarrow> Inl err
         | Inr cycs \<Rightarrow>
             Inr \<lparr>sense = LpMinimize,
                  x_keys = xs,
                  y_keys = V2 parts,
                  objective = V2 parts,
                  constraints =
                    Constraint xs Equals (number_of_nodes G - 1) []
                    # cycs
                    @ forced_constraints xs ponts edges_forcees
                    @ map (degree_constraint G parts) (nodes G)\<rparr>)"

definition resoudre_ilp_iteration ::
  "solver \<Rightarrow> nat \<Rightarrow> (graph \<Rightarrow> node list list) \<Rightarrow> graph \<Rightarrow> partitions \<Rightarrow> edge list \<Rightarrow> edge list
     \<Rightarrow> error + edge list option" where
  "resoudre_ilp_iteration solve it cycle_basis G parts ponts edges_forcees =
     (case build_model cycle_basis G parts ponts edges_forcees of
        Inl err \<Rightarrow> Inl err
      | Inr m \<Rightarrow>
          (let s = solve it m
           in if status s = 1 then Inr (Some (filter (\<lambda>e. x_value s e = 1) (all_edges G)))
              else Inr None))"

section \<open>The reconnection heuristic\<close>

text \<open>\<open>next(i for i, c in enumerate(composantes) if u in c)\<close>\<close>

fun component_index :: "node list list \<Rightarrow> node \<Rightarrow> error + nat" where
  "component_index [] u = Inl StopIteration"
| "component_index (c # cs) u =
     (if u \<in> set c then Inr 0
      else (case component_index cs u of Inl err \<Rightarrow> Inl err | Inr i \<Rightarrow> Inr (Suc i)))"

text \<open>The edges of the graph that join two different components, in enumeration order.\<close>

fun candidates_of :: "node list list \<Rightarrow> edge list \<Rightarrow> error + edge list" where
  "candidates_of composantes [] = Inr []"
| "candidates_of composantes ((u, v) # es) =
     (case component_index composantes u of
        Inl err \<Rightarrow> Inl err
      | Inr c_u \<Rightarrow>
          (case component_index composantes v of
             Inl err \<Rightarrow> Inl err
           | Inr c_v \<Rightarrow>
               (case candidates_of composantes es of
                  Inl err \<Rightarrow> Inl err
                | Inr rest \<Rightarrow> Inr (if c_u \<noteq> c_v then sorted_tuple (u, v) # rest else rest))))"

definition score_arete :: "graph \<Rightarrow> edge \<Rightarrow> int" where
  "score_arete T e = degree T (fst e) + degree T (snd e)"

text \<open>The slice \<open>xs[:k]\<close>; a negative \<open>k\<close> counts from the end.\<close>

definition py_prefix :: "'a list \<Rightarrow> int \<Rightarrow> 'a list" where
  "py_prefix xs k = (if 0 \<le> k then take (nat k) xs else take (length xs - nat (- k)) xs)"

text \<open>
  The choice of the new forced edges. \<open>ilp_updated.py\<close> sorts the candidates by score
  (\<open>list.sort\<close> is stable) and keeps the first ones; \<open>ilp_solver.py\<close> draws them with
  \<open>random.sample\<close>, here a parameter \<open>rnd\<close> that is asked for a sample of a given size.
\<close>

type_synonym selection = "nat \<Rightarrow> graph \<Rightarrow> edge list \<Rightarrow> int \<Rightarrow> error + edge list"

definition selection_scored :: selection where
  "selection_scored it T candidates n_quota =
     (let sorted_candidates = sort_key (score_arete T) candidates;
          sample_size = min (int (length candidates)) n_quota
      in Inr (py_prefix sorted_candidates sample_size))"

definition selection_random :: "(nat \<Rightarrow> edge list \<Rightarrow> nat \<Rightarrow> edge list) \<Rightarrow> selection" where
  "selection_random rnd it T candidates n_quota =
     (let sample_size = min (int (length candidates)) n_quota
      in if sample_size < 0 then Inl ValueError
         else Inr (rnd it candidates (nat sample_size)))"

section \<open>The solve loop\<close>

record loop_state =
  iteration :: nat
  edges_forcees :: "edge list"
  n_quota :: int

datatype step = Raise error | Return "graph option" | Continue loop_state

text \<open>The candidate of a pass: a fresh graph on the vertices of \<open>G\<close> with the selected edges.\<close>

definition candidate_graph :: "graph \<Rightarrow> edge list \<Rightarrow> graph" where
  "candidate_graph G sol_edges = add_edges_from sol_edges (add_nodes_from (nodes G) empty_graph)"

text \<open>One pass through the body of \<open>while True\<close>.\<close>

definition iteration_step ::
  "selection \<Rightarrow> solver \<Rightarrow> (graph \<Rightarrow> node list list) \<Rightarrow> graph \<Rightarrow> edge list \<Rightarrow> partitions
     \<Rightarrow> loop_state \<Rightarrow> step" where
  "iteration_step select solve cycle_basis G ponts parts st =
     (let it = iteration st + 1
      in case resoudre_ilp_iteration solve it cycle_basis G parts ponts (edges_forcees st) of
           Inl err \<Rightarrow> Raise err
         | Inr None \<Rightarrow> Return None
         | Inr (Some sol_edges) \<Rightarrow>
             if sol_edges = [] then Return None
             else
               (let T = candidate_graph G sol_edges
                in case is_connected T of
                     Inl err \<Rightarrow> Raise err
                   | Inr True \<Rightarrow> Return (Some T)
                   | Inr False \<Rightarrow>
                       (case candidates_of (connected_components T) (edges G) of
                          Inl err \<Rightarrow> Raise err
                        | Inr candidates \<Rightarrow>
                            (case (if candidates \<noteq> [] then select it T candidates (n_quota st)
                                   else Inr []) of
                               Inl err \<Rightarrow> Raise err
                             | Inr new_edges \<Rightarrow>
                                 Continue
                                   \<lparr>iteration = it,
                                    edges_forcees = edges_forcees st @ new_edges,
                                    n_quota = (if n_quota st > 1 then n_quota st - 1
                                               else n_quota st)\<rparr>))))"

text \<open>
  The loop itself, over its body. It has no bound on the number of passes, so its result
  is an option: \<open>None\<close> is the run that never returns; \<open>Some (Inl err)\<close> is an
  exception; \<open>Some (Inr None)\<close> is the failure value and \<open>Some (Inr (Some T))\<close> a
  returned tree.
\<close>

partial_function (option) solve_loop ::
  "(loop_state \<Rightarrow> step) \<Rightarrow> loop_state \<Rightarrow> (error + graph option) option" where
  "solve_loop body st =
     (case body st of
        Raise err \<Rightarrow> Some (Inl err)
      | Return r \<Rightarrow> Some (Inr r)
      | Continue st' \<Rightarrow> solve_loop body st')"

declare solve_loop.simps [code]

text \<open>The state at the start of pass \<open>k + 1\<close>, when the first \<open>k\<close> passes all went on.\<close>

primrec state_after :: "(loop_state \<Rightarrow> step) \<Rightarrow> nat \<Rightarrow> loop_state \<Rightarrow> loop_state option" where
  "state_after body 0 st = Some st"
| "state_after body (Suc k) st =
     (case state_after body k st of
        None \<Rightarrow> None
      | Some st' \<Rightarrow> (case body st' of Continue st'' \<Rightarrow> Some st'' | _ \<Rightarrow> None))"

text \<open>
  \<open>max(1, int(n ** 0.5 / 2))\<close>. The source computes it in double precision; the model
  takes the square root and the quotient over the reals, and \<open>int\<close> of a value that is
  not negative is its floor.
\<close>

definition initial_quota :: "graph \<Rightarrow> int" where
  "initial_quota G = max 1 \<lfloor>sqrt (real_of_int (number_of_nodes G)) / 2\<rfloor>"

definition initial_state :: "graph \<Rightarrow> loop_state" where
  "initial_state G = \<lparr>iteration = 0, edges_forcees = [], n_quota = initial_quota G\<rparr>"

definition resoudre_mbvst_with ::
  "selection \<Rightarrow> solver \<Rightarrow> (graph \<Rightarrow> node list list) \<Rightarrow> graph \<Rightarrow> (error + graph option) option" where
  "resoudre_mbvst_with select solve cycle_basis G =
     (case analyser_structure G of
        (ponts, parts) \<Rightarrow>
          solve_loop (iteration_step select solve cycle_basis G ponts parts) (initial_state G))"

text \<open>The state of that run at the start of pass \<open>k + 1\<close>.\<close>

definition run_state ::
  "selection \<Rightarrow> solver \<Rightarrow> (graph \<Rightarrow> node list list) \<Rightarrow> graph \<Rightarrow> nat \<Rightarrow> loop_state option" where
  "run_state select solve cycle_basis G k =
     (case analyser_structure G of
        (ponts, parts) \<Rightarrow>
          state_after (iteration_step select solve cycle_basis G ponts parts) k (initial_state G))"

text \<open>\<open>resoudre_mbvst\<close> of \<open>ilp_updated.py\<close> and of \<open>ilp_solver.py\<close>.\<close>

definition resoudre_mbvst ::
  "solver \<Rightarrow> (graph \<Rightarrow> node list list) \<Rightarrow> graph \<Rightarrow> (error + graph option) option" where
  "resoudre_mbvst = resoudre_mbvst_with selection_scored"

definition resoudre_mbvst_random ::
  "(nat \<Rightarrow> edge list \<Rightarrow> nat \<Rightarrow> edge list) \<Rightarrow> solver \<Rightarrow> (graph \<Rightarrow> node list list) \<Rightarrow> graph
     \<Rightarrow> (error + graph option) option" where
  "resoudre_mbvst_random rnd = resoudre_mbvst_with (selection_random rnd)"

section \<open>Notions used to state the properties\<close>

text \<open>Two vertices are adjacent when an edge joins them, in either orientation.\<close>

definition adjacent :: "graph \<Rightarrow> (node \<times> node) set" where
  "adjacent G = {(u, v). (u, v) \<in> set (edges G) \<or> (v, u) \<in> set (edges G)}"

text \<open>A graph is connected when a path joins every two of its vertices.\<close>

definition connected :: "graph \<Rightarrow> bool" where
  "connected G \<longleftrightarrow> (\<forall>u \<in> set (nodes G). \<forall>v \<in> set (nodes G). (u, v) \<in> (adjacent G)\<^sup>*)"

definition closed_under :: "graph \<Rightarrow> node set \<Rightarrow> bool" where
  "closed_under G S \<longleftrightarrow> (\<forall>u \<in> S. \<forall>w. (u, w) \<in> adjacent G \<longrightarrow> w \<in> S)"

text \<open>The test that \<open>bridges\<close> applies to each edge, named so that it can be computed edge by edge.\<close>

definition separates :: "graph \<Rightarrow> edge \<Rightarrow> bool" where
  "separates G e \<longleftrightarrow> snd e \<notin> set (plain_bfs (remove_edge e G) (fst e))"

text \<open>The integer square root, to compute the initial quota without real numbers.\<close>

primrec floor_sqrt :: "nat \<Rightarrow> nat" where
  "floor_sqrt 0 = 0"
| "floor_sqrt (Suc n) =
     (let r = floor_sqrt n in if (r + 1) * (r + 1) \<le> Suc n then r + 1 else r)"

section \<open>Instances\<close>

text \<open>
  A solver that follows a script: in pass \<open>i\<close> it proposes the \<open>i\<close>-th entry (the
  selected edges and the branch vertices), answers optimal when the proposal satisfies the
  model, and infeasible otherwise or when the script is over.
\<close>

definition proposal :: "edge list \<Rightarrow> node list \<Rightarrow> solution" where
  "proposal es bs =
     \<lparr>status = 1,
      x_value = (\<lambda>e. if e \<in> set es then 1 else 0),
      y_value = (\<lambda>v. if v \<in> set bs then 1 else 0)\<rparr>"

definition scripted_solver :: "(edge list \<times> node list) list \<Rightarrow> solver" where
  "scripted_solver script i m =
     (if 1 \<le> i \<and> i \<le> length script
      then (let s = proposal (fst (script ! (i - 1))) (snd (script ! (i - 1)))
            in if feasible m s then s else s\<lparr>status := - 1\<rparr>)
      else (proposal [] [])\<lparr>status := - 1\<rparr>)"

text \<open>
  A solver with a preference: it answers with the proposal \<open>p\<close> whenever \<open>p\<close> satisfies the
  model it is given, and asks another solver otherwise.
\<close>

definition preferring_solver :: "edge list \<times> node list \<Rightarrow> solver \<Rightarrow> solver" where
  "preferring_solver p solve i m =
     (let s = proposal (fst p) (snd p) in if feasible m s then s else solve i m)"

text \<open>
  Six vertices: the triangle 1-2-3, the path 4-5-6 and three edges between them. The first
  proposal selects the triangle and the path, which no cycle of the basis forbids; the
  second is the path 3-1-2-6-5-4.
\<close>

definition G6 :: graph where
  "G6 = \<lparr>nodes = [1, 2, 3, 4, 5, 6],
         edges = [(1, 2), (1, 3), (1, 5), (2, 3), (2, 6), (3, 4), (4, 5), (5, 6)]\<rparr>"

definition G6_basis :: "graph \<Rightarrow> node list list" where
  "G6_basis G = [[1, 5, 4, 3], [2, 1, 5, 4, 3], [5, 1, 2, 6]]"

definition G6_script :: "(edge list \<times> node list) list" where
  "G6_script =
     [([(1, 2), (1, 3), (2, 3), (4, 5), (5, 6)], []),
      ([(1, 2), (1, 3), (2, 6), (4, 5), (5, 6)], [])]"

definition T6 :: graph where
  "T6 = \<lparr>nodes = [1, 2, 3, 4, 5, 6], edges = [(1, 2), (1, 3), (2, 6), (4, 5), (5, 6)]\<rparr>"

text \<open>
  Sixteen vertices: the six-vertex graph above with the path 6-7-...-16 attached, whose
  edges are bridges. The quota starts at 2. The first proposal is the triangle 1-2-3, the
  path 4-5-6 and the bridges; the second the triangle with 3-4 and 1-5 (vertices 1 and 3
  branch) and the bridges; the third the path 4-3-2-1-5-6-...-16.
\<close>

definition G16 :: graph where
  "G16 = \<lparr>nodes = [1, 2, 3, 4, 5, 6, 7, 8, 9, 10, 11, 12, 13, 14, 15, 16],
         edges = [(1, 2), (1, 3), (1, 5), (2, 3), (2, 6), (3, 4), (4, 5), (5, 6), (6, 7),
                  (7, 8), (8, 9), (9, 10), (10, 11), (11, 12), (12, 13), (13, 14), (14, 15),
                  (15, 16)]\<rparr>"

definition G16_tail :: "edge list" where
  "G16_tail = [(6, 7), (7, 8), (8, 9), (9, 10), (10, 11), (11, 12), (12, 13), (13, 14),
               (14, 15), (15, 16)]"

definition G16_parts :: partitions where
  "G16_parts = \<lparr>V01 = [4, 7, 8, 9, 10, 11, 12, 13, 14, 15, 16], V2 = [1, 2, 3, 5, 6], V3 = []\<rparr>"

definition G16_first :: "edge list" where
  "G16_first = [(1, 2), (1, 3), (2, 3), (4, 5), (5, 6)] @ G16_tail"

definition G16_second :: "edge list" where
  "G16_second = [(1, 2), (1, 3), (1, 5), (2, 3), (3, 4)] @ G16_tail"

definition G16_third :: "edge list" where
  "G16_third = [(1, 2), (1, 5), (2, 3), (3, 4), (5, 6)] @ G16_tail"

definition G16_script :: "(edge list \<times> node list) list" where
  "G16_script = [(G16_first, []), (G16_second, [1, 3]), (G16_third, [])]"

definition T16 :: graph where
  "T16 = \<lparr>nodes = nodes G16, edges = G16_third\<rparr>"

text \<open>
  The solver of this instance prefers a selection without the bridge 6-7: fifteen edges,
  vertex 3 branching, no cycle of the basis complete. The model with the bridges fixed
  rules it out in every pass, and the solver falls back on the script.
\<close>

definition G16_without_bridge :: "edge list" where
  "G16_without_bridge =
     [(1, 2), (1, 3), (2, 3), (3, 4), (4, 5), (5, 6), (7, 8), (8, 9), (9, 10), (10, 11),
      (11, 12), (12, 13), (13, 14), (14, 15), (15, 16)]"

definition G16_solver :: solver where
  "G16_solver = preferring_solver (G16_without_bridge, [3]) (scripted_solver G16_script)"

text \<open>Scenario B of the specification: the triangle 1-2-3 with the pendant edge 3-4.\<close>

definition GB :: graph where
  "GB = \<lparr>nodes = [1, 2, 3, 4], edges = [(1, 2), (1, 3), (2, 3), (3, 4)]\<rparr>"

definition GB_basis :: "graph \<Rightarrow> node list list" where
  "GB_basis G = [[1, 2, 3]]"

definition GB_model :: milp where
  "GB_model =
     \<lparr>sense = LpMinimize,
      x_keys = [(1, 2), (1, 3), (2, 3), (3, 4)],
      y_keys = [3],
      objective = [3],
      constraints =
        [Constraint [(1, 2), (1, 3), (2, 3), (3, 4)] Equals 3 [],
         Constraint [(1, 2), (2, 3), (1, 3)] AtMost 2 [],
         Constraint [(3, 4)] Equals 1 [],
         Constraint [(1, 2), (1, 3)] AtMost 2 [],
         Constraint [(1, 2), (2, 3)] AtMost 2 [],
         Constraint [(1, 3), (2, 3), (3, 4)] AtMost 2 [(1, 3)],
         Constraint [(3, 4)] AtMost 2 []]\<rparr>"

text \<open>Two vertices and no edge: no selection has one edge, so the model is infeasible.\<close>

definition G2 :: graph where
  "G2 = \<lparr>nodes = [1, 2], edges = []\<rparr>"

definition G2_model :: milp where
  "G2_model =
     \<lparr>sense = LpMinimize, x_keys = [], y_keys = [], objective = [],
      constraints = [Constraint [] Equals 1 [], Constraint [] AtMost 2 [], Constraint [] AtMost 2 []]\<rparr>"

text \<open>A single vertex: the empty selection is optimal.\<close>

definition G1 :: graph where
  "G1 = \<lparr>nodes = [1], edges = []\<rparr>"

definition G1_model :: milp where
  "G1_model =
     \<lparr>sense = LpMinimize, x_keys = [], y_keys = [], objective = [],
      constraints = [Constraint [] Equals 0 [], Constraint [] AtMost 2 []]\<rparr>"

definition no_cycles :: "graph \<Rightarrow> node list list" where
  "no_cycles G = []"

section \<open>Reachability and the connectivity functions\<close>

lemma bridges_code [code]: "bridges G = filter (separates G) (edges G)"
  unfolding bridges_def by (rule filter_cong) (simp_all add: separates_def)

lemma sorted_tuple_idem [simp]: "sorted_tuple (sorted_tuple e) = sorted_tuple e"
  by (cases e) auto

lemma sorted_tuple_swap: "sorted_tuple (v, u) = sorted_tuple (u, v)"
  by auto

lemma set_neighbors: "set (neighbors G v) = {w. (v, w) \<in> adjacent G}"
  by (auto simp: neighbors_def adjacent_def image_iff)

lemma adjacent_sym: "(u, v) \<in> adjacent G \<Longrightarrow> (v, u) \<in> adjacent G"
  by (auto simp: adjacent_def)

lemma reach_sym: "(u, v) \<in> (adjacent G)\<^sup>* \<Longrightarrow> (v, u) \<in> (adjacent G)\<^sup>*"
  by (induction rule: rtrancl_induct) (auto intro: converse_rtrancl_into_rtrancl adjacent_sym)

lemma set_bfs_round: "set (bfs_round G vs) = set vs \<union> {w. \<exists>v \<in> set vs. (v, w) \<in> adjacent G}"
  by (auto simp: bfs_round_def set_neighbors)

lemma bfs_rounds_Suc: "bfs_rounds G (Suc k) vs = bfs_round G (bfs_rounds G k vs)"
  by (induction k arbitrary: vs) simp_all

lemma bfs_rounds_sound:
  "w \<in> set (bfs_rounds G k vs) \<Longrightarrow> \<exists>v \<in> set vs. (v, w) \<in> (adjacent G)\<^sup>*"
proof (induction k arbitrary: vs)
  case 0
  then show ?case by auto
next
  case (Suc k)
  then obtain x where x: "x \<in> set (bfs_round G vs)" "(x, w) \<in> (adjacent G)\<^sup>*"
    by auto
  from x(1) obtain v where "v \<in> set vs" "(v, x) \<in> (adjacent G)\<^sup>*"
    by (auto simp: set_bfs_round)
  with x(2) show ?case by (meson rtrancl_trans)
qed

lemma bfs_rounds_mono: "set vs \<subseteq> set (bfs_rounds G k vs)"
proof (induction k arbitrary: vs)
  case 0
  then show ?case by simp
next
  case (Suc k)
  have "set vs \<subseteq> set (bfs_round G vs)" by (auto simp: set_bfs_round)
  also have "\<dots> \<subseteq> set (bfs_rounds G (Suc k) vs)" using Suc.IH by simp
  finally show ?case .
qed

lemma bfs_rounds_distinct: "distinct vs \<Longrightarrow> distinct (bfs_rounds G k vs)"
  by (induction k arbitrary: vs) (auto simp: bfs_round_def)

lemma closed_reach:
  assumes "(v, w) \<in> (adjacent G)\<^sup>*" "closed_under G S" "v \<in> S"
  shows "w \<in> S"
  using assms by (induction rule: rtrancl_induct) (auto simp: closed_under_def)

lemma adjacent_nodes: "wf_graph G \<Longrightarrow> (u, w) \<in> adjacent G \<Longrightarrow> u \<in> set (nodes G) \<and> w \<in> set (nodes G)"
  by (auto simp: wf_graph_def adjacent_def)

lemma bfs_rounds_nodes:
  "wf_graph G \<Longrightarrow> set vs \<subseteq> set (nodes G) \<Longrightarrow> set (bfs_rounds G k vs) \<subseteq> set (nodes G)"
proof (induction k arbitrary: vs)
  case 0
  then show ?case by simp
next
  case (Suc k)
  have "set (bfs_round G vs) \<subseteq> set (nodes G)"
    using Suc.prems by (auto simp: set_bfs_round dest: adjacent_nodes)
  then show ?case using Suc by simp
qed

lemma bfs_rounds_grow:
  "closed_under G (set (bfs_rounds G k vs)) \<or> k + card (set vs) \<le> card (set (bfs_rounds G k vs))"
proof (induction k)
  case 0
  then show ?case by simp
next
  case (Suc k)
  let ?W = "bfs_rounds G k vs"
  show ?case
  proof (cases "closed_under G (set ?W)")
    case True
    then have "set (bfs_round G ?W) = set ?W"
      by (auto simp: set_bfs_round closed_under_def)
    with True show ?thesis by (simp only: bfs_rounds_Suc) simp
  next
    case False
    then obtain u w where "u \<in> set ?W" "(u, w) \<in> adjacent G" "w \<notin> set ?W"
      by (auto simp: closed_under_def)
    then have "set ?W \<subset> set (bfs_round G ?W)"
      by (auto simp: set_bfs_round)
    then have "card (set ?W) < card (set (bfs_round G ?W))"
      by (simp add: psubset_card_mono)
    moreover from False Suc have "k + card (set vs) \<le> card (set ?W)" by simp
    ultimately show ?thesis by (simp only: bfs_rounds_Suc) simp
  qed
qed

lemma plain_bfs_closed:
  assumes "wf_graph G" "v \<in> set (nodes G)"
  shows "closed_under G (set (plain_bfs G v))"
proof (rule ccontr)
  assume "\<not> ?thesis"
  then have "length (nodes G) + card (set [v]) \<le> card (set (plain_bfs G v))"
    using bfs_rounds_grow [of G "length (nodes G)" "[v]"] by (simp add: plain_bfs_def)
  moreover have "set (plain_bfs G v) \<subseteq> set (nodes G)"
    unfolding plain_bfs_def using assms by (intro bfs_rounds_nodes) auto
  then have "card (set (plain_bfs G v)) \<le> card (set (nodes G))"
    by (simp add: card_mono)
  moreover have "card (set (nodes G)) \<le> length (nodes G)"
    by (rule card_length)
  ultimately show False by simp
qed

lemma plain_bfs_self: "v \<in> set (plain_bfs G v)"
  using bfs_rounds_mono [of "[v]" G] by (auto simp: plain_bfs_def)

lemma plain_bfs_sound: "w \<in> set (plain_bfs G v) \<Longrightarrow> (v, w) \<in> (adjacent G)\<^sup>*"
  using bfs_rounds_sound [of w G _ "[v]"] by (auto simp: plain_bfs_def)

lemma set_plain_bfs:
  assumes "wf_graph G" "v \<in> set (nodes G)"
  shows "set (plain_bfs G v) = {w. (v, w) \<in> (adjacent G)\<^sup>*}"
  using plain_bfs_sound closed_reach [OF _ plain_bfs_closed [OF assms] plain_bfs_self]
  by auto

lemma distinct_plain_bfs: "distinct (plain_bfs G v)"
  by (simp add: plain_bfs_def bfs_rounds_distinct)

lemma plain_bfs_nodes: "wf_graph G \<Longrightarrow> v \<in> set (nodes G) \<Longrightarrow> set (plain_bfs G v) \<subseteq> set (nodes G)"
  unfolding plain_bfs_def by (intro bfs_rounds_nodes) auto

lemma is_connected_iff:
  assumes "wf_graph G" "nodes G \<noteq> []"
  shows "is_connected G = Inr (connected G)"
proof -
  obtain v rest where nd: "nodes G = v # rest" using assms(2) by (cases "nodes G") auto
  then have v: "v \<in> set (nodes G)" by simp
  have sub: "set (plain_bfs G v) \<subseteq> set (nodes G)" by (rule plain_bfs_nodes [OF assms(1) v])
  have dn: "distinct (nodes G)" using assms(1) by (simp add: wf_graph_def)
  have "length (plain_bfs G v) = length (nodes G) \<longleftrightarrow> set (plain_bfs G v) = set (nodes G)"
  proof
    assume "length (plain_bfs G v) = length (nodes G)"
    then have "card (set (plain_bfs G v)) = card (set (nodes G))"
      using distinct_plain_bfs dn by (simp add: distinct_card)
    with sub show "set (plain_bfs G v) = set (nodes G)"
      by (simp add: card_subset_eq)
  next
    assume "set (plain_bfs G v) = set (nodes G)"
    then have "card (set (plain_bfs G v)) = card (set (nodes G))" by simp
    then show "length (plain_bfs G v) = length (nodes G)"
      using distinct_plain_bfs dn by (simp add: distinct_card)
  qed
  also have "\<dots> \<longleftrightarrow> connected G"
  proof
    assume eq: "set (plain_bfs G v) = set (nodes G)"
    show "connected G"
      unfolding connected_def
    proof (intro ballI)
      fix a b assume "a \<in> set (nodes G)" "b \<in> set (nodes G)"
      then have "(v, a) \<in> (adjacent G)\<^sup>*" "(v, b) \<in> (adjacent G)\<^sup>*"
        using eq plain_bfs_sound by blast+
      then show "(a, b) \<in> (adjacent G)\<^sup>*"
        by (meson reach_sym rtrancl_trans)
    qed
  next
    assume "connected G"
    then have "set (nodes G) \<subseteq> set (plain_bfs G v)"
      using v by (auto simp: connected_def set_plain_bfs [OF assms(1) v])
    with sub show "set (plain_bfs G v) = set (nodes G)" by auto
  qed
  finally show ?thesis by (simp add: is_connected_def nd)
qed

subsection \<open>Components\<close>

lemma components_from_classes:
  assumes "wf_graph T" "set vs \<subseteq> set (nodes T)"
  shows "\<forall>c \<in> set (components_from T seen vs). \<exists>x. set c = {w. (x, w) \<in> (adjacent T)\<^sup>*}"
  using assms(2)
proof (induction vs arbitrary: seen)
  case Nil
  then show ?case by simp
next
  case (Cons v vs)
  then have v: "v \<in> set (nodes T)" and vs: "set vs \<subseteq> set (nodes T)" by auto
  from set_plain_bfs [OF assms(1) v] Cons.IH [OF vs]
  show ?case by (auto simp: Let_def)
qed

lemma components_from_cover:
  "x \<in> set vs \<Longrightarrow> x \<in> set seen \<or> (\<exists>c \<in> set (components_from T seen vs). x \<in> set c)"
proof (induction vs arbitrary: seen)
  case Nil
  then show ?case by simp
next
  case (Cons v vs)
  show ?case
  proof (cases "x = v")
    case True
    then show ?thesis using plain_bfs_self [of v T] by (auto simp: Let_def)
  next
    case False
    with Cons.prems have "x \<in> set vs" by simp
    from Cons.IH [OF this, of seen] Cons.IH [OF this, of "seen @ plain_bfs T v"]
    show ?thesis by (auto simp: Let_def)
  qed
qed

lemma component_index_defined:
  "\<exists>c \<in> set cs. u \<in> set c \<Longrightarrow> \<exists>i. component_index cs u = Inr i"
proof (induction cs)
  case Nil
  then show ?case by simp
next
  case (Cons c cs)
  show ?case
  proof (cases "u \<in> set c")
    case True
    then show ?thesis by simp
  next
    case False
    with Cons.prems have "\<exists>c \<in> set cs. u \<in> set c" by auto
    from Cons.IH [OF this] obtain i where "component_index cs u = Inr i" ..
    with False show ?thesis by simp
  qed
qed

lemma component_index_classes:
  assumes "\<forall>c \<in> set cs. \<exists>x. set c = {w. (x, w) \<in> (adjacent T)\<^sup>*}"
    and "\<exists>c \<in> set cs. u \<in> set c" and "\<exists>c \<in> set cs. v \<in> set c"
  shows "\<exists>i j. component_index cs u = Inr i \<and> component_index cs v = Inr j \<and>
           (i = j \<longleftrightarrow> (u, v) \<in> (adjacent T)\<^sup>*)"
  using assms
proof (induction cs)
  case Nil
  then show ?case by simp
next
  case (Cons c cs)
  from Cons.prems(1) obtain x where x: "set c = {w. (x, w) \<in> (adjacent T)\<^sup>*}" by auto
  show ?case
  proof (cases "u \<in> set c")
    case u: True
    show ?thesis
    proof (cases "v \<in> set c")
      case True
      with u x have "(x, u) \<in> (adjacent T)\<^sup>*" "(x, v) \<in> (adjacent T)\<^sup>*" by auto
      then have "(u, v) \<in> (adjacent T)\<^sup>*" by (meson reach_sym rtrancl_trans)
      with u True show ?thesis by simp
    next
      case False
      with Cons.prems(3) have "\<exists>c \<in> set cs. v \<in> set c" by auto
      from component_index_defined [OF this] obtain j where j: "component_index cs v = Inr j" ..
      have "(u, v) \<notin> (adjacent T)\<^sup>*"
      proof
        assume "(u, v) \<in> (adjacent T)\<^sup>*"
        moreover from u x have "(x, u) \<in> (adjacent T)\<^sup>*" by auto
        ultimately have "(x, v) \<in> (adjacent T)\<^sup>*" by (rule rtrancl_trans [rotated])
        with x False show False by auto
      qed
      with u False j show ?thesis by simp
    qed
  next
    case u: False
    with Cons.prems(2) have u': "\<exists>c \<in> set cs. u \<in> set c" by auto
    show ?thesis
    proof (cases "v \<in> set c")
      case True
      from component_index_defined [OF u'] obtain i where i: "component_index cs u = Inr i" ..
      have "(u, v) \<notin> (adjacent T)\<^sup>*"
      proof
        assume "(u, v) \<in> (adjacent T)\<^sup>*"
        then have "(v, u) \<in> (adjacent T)\<^sup>*" by (rule reach_sym)
        moreover from True x have "(x, v) \<in> (adjacent T)\<^sup>*" by auto
        ultimately have "(x, u) \<in> (adjacent T)\<^sup>*" by (rule rtrancl_trans [rotated])
        with x u show False by auto
      qed
      with u True i show ?thesis by simp
    next
      case False
      with Cons.prems(3) have v': "\<exists>c \<in> set cs. v \<in> set c" by auto
      from Cons.prems(1) have "\<forall>c \<in> set cs. \<exists>x. set c = {w. (x, w) \<in> (adjacent T)\<^sup>*}" by simp
      from Cons.IH [OF this u' v'] u False show ?thesis by auto
    qed
  qed
qed

lemma candidates_of_classes:
  assumes "\<forall>c \<in> set cs. \<exists>x. set c = {w. (x, w) \<in> (adjacent T)\<^sup>*}"
    and "\<forall>(u, v) \<in> set es. (\<exists>c \<in> set cs. u \<in> set c) \<and> (\<exists>c \<in> set cs. v \<in> set c)"
  shows "candidates_of cs es
           = Inr (map sorted_tuple (filter (\<lambda>e. e \<notin> (adjacent T)\<^sup>*) es))"
  using assms(2)
proof (induction es)
  case Nil
  then show ?case by simp
next
  case (Cons e es)
  obtain u v where e: "e = (u, v)" by (cases e)
  from Cons.prems e have "\<exists>c \<in> set cs. u \<in> set c" "\<exists>c \<in> set cs. v \<in> set c" by auto
  from component_index_classes [OF assms(1) this] obtain i j where
    "component_index cs u = Inr i" "component_index cs v = Inr j"
    "i = j \<longleftrightarrow> (u, v) \<in> (adjacent T)\<^sup>*"
    by blast
  moreover from Cons have "candidates_of cs es
           = Inr (map sorted_tuple (filter (\<lambda>e. e \<notin> (adjacent T)\<^sup>*) es))"
    by simp
  ultimately show ?case by (simp add: e)
qed

lemma candidates_of_components:
  assumes "wf_graph T" and "\<forall>(u, v) \<in> set es. u \<in> set (nodes T) \<and> v \<in> set (nodes T)"
  shows "candidates_of (connected_components T) es
           = Inr (map sorted_tuple (filter (\<lambda>e. e \<notin> (adjacent T)\<^sup>*) es))"
proof (rule candidates_of_classes)
  show "\<forall>c \<in> set (connected_components T). \<exists>x. set c = {w. (x, w) \<in> (adjacent T)\<^sup>*}"
    unfolding connected_components_def by (rule components_from_classes [OF assms(1)]) simp
  have "\<And>x. x \<in> set (nodes T) \<Longrightarrow> \<exists>c \<in> set (connected_components T). x \<in> set c"
    unfolding connected_components_def using components_from_cover [of _ "nodes T" "[]" T] by simp
  with assms(2)
  show "\<forall>(u, v) \<in> set es. (\<exists>c \<in> set (connected_components T). u \<in> set c) \<and>
                             (\<exists>c \<in> set (connected_components T). v \<in> set c)"
    by blast
qed

section \<open>The candidate graph\<close>

lemma sorted_tuple_all_edges: "e \<in> set (all_edges G) \<Longrightarrow> sorted_tuple e = e"
  by (auto simp: all_edges_def)

lemma add_nodes_from_fresh:
  "distinct vs \<Longrightarrow> set vs \<inter> set (nodes H) = {} \<Longrightarrow> add_nodes_from vs H = H\<lparr>nodes := nodes H @ vs\<rparr>"
  unfolding add_nodes_from_def
  by (induction vs arbitrary: H) (auto simp: add_node_def)

lemma add_edges_from_fresh:
  "\<forall>e \<in> set es. fst e \<in> set (nodes H) \<and> snd e \<in> set (nodes H) \<Longrightarrow>
   distinct (map sorted_tuple es) \<Longrightarrow>
   sorted_tuple ` set es \<inter> sorted_tuple ` set (edges H) = {} \<Longrightarrow>
   add_edges_from es H = H\<lparr>edges := edges H @ es\<rparr>"
  unfolding add_edges_from_def
proof (induction es arbitrary: H)
  case Nil
  then show ?case by simp
next
  case (Cons e es)
  have 1: "add_edge e H = H\<lparr>edges := edges H @ [e]\<rparr>"
    using Cons.prems by (auto simp: add_edge_def add_node_def has_edge_def Let_def)
  have "foldl (\<lambda>H e. add_edge e H) (H\<lparr>edges := edges H @ [e]\<rparr>) es
        = (H\<lparr>edges := edges H @ [e]\<rparr>)\<lparr>edges := edges (H\<lparr>edges := edges H @ [e]\<rparr>) @ es\<rparr>"
    using Cons.prems by (intro Cons.IH) auto
  then show ?case by (simp add: 1)
qed


lemma sorted_tuple_ends:
  "sorted_tuple e = (u, v) \<Longrightarrow> (fst e = u \<and> snd e = v) \<or> (fst e = v \<and> snd e = u)"
  by (cases e) (auto split: if_splits)

lemma all_edges_nodes:
  assumes "wf_graph G" "(u, v) \<in> set (all_edges G)"
  shows "u \<in> set (nodes G) \<and> v \<in> set (nodes G)"
proof -
  from assms(2) obtain e where e: "e \<in> set (edges G)" "sorted_tuple e = (u, v)"
    by (auto simp: all_edges_def)
  from assms(1) e(1) have "fst e \<in> set (nodes G) \<and> snd e \<in> set (nodes G)"
    by (cases e) (auto simp: wf_graph_def)
  with sorted_tuple_ends [OF e(2)] show ?thesis by auto
qed

lemma wf_selection:
  assumes "wf_graph G" "set sol \<subseteq> set (all_edges G)" "distinct sol"
  shows "wf_graph \<lparr>nodes = nodes G, edges = sol\<rparr>"
proof -
  have "map sorted_tuple sol = sol"
    using assms(2) by (intro map_idI) (auto dest: sorted_tuple_all_edges)
  moreover have "\<forall>(u, v) \<in> set sol. u \<in> set (nodes G) \<and> v \<in> set (nodes G)"
    using assms(2) all_edges_nodes [OF assms(1)] by blast
  moreover have "distinct (nodes G)" using assms(1) by (simp add: wf_graph_def)
  ultimately show ?thesis using assms(3) by (simp add: wf_graph_def)
qed

lemma candidate_graph_eq:
  assumes "wf_graph G" "set sol \<subseteq> set (all_edges G)" "distinct sol"
  shows "candidate_graph G sol = \<lparr>nodes = nodes G, edges = sol\<rparr>"
proof -
  have n: "add_nodes_from (nodes G) empty_graph = \<lparr>nodes = nodes G, edges = []\<rparr>"
    using assms(1) by (subst add_nodes_from_fresh) (auto simp: wf_graph_def empty_graph_def)
  have w: "wf_graph \<lparr>nodes = nodes G, edges = sol\<rparr>" by (rule wf_selection [OF assms])
  have "add_edges_from sol \<lparr>nodes = nodes G, edges = []\<rparr>
      = \<lparr>nodes = nodes G, edges = []\<rparr>\<lparr>edges := edges \<lparr>nodes = nodes G, edges = []\<rparr> @ sol\<rparr>"
    using w by (intro add_edges_from_fresh) (auto simp: wf_graph_def)
  then show ?thesis by (simp add: candidate_graph_def n)
qed

section \<open>The loop and its states\<close>

lemma state_after_shift:
  "body st = Continue s1 \<Longrightarrow> state_after body (Suc k) st = state_after body k s1"
  by (induction k) simp_all

lemma state_after_loop:
  "state_after body k st = Some st' \<Longrightarrow> solve_loop body st = solve_loop body st'"
proof (induction k arbitrary: st')
  case 0
  then show ?case by simp
next
  case (Suc k)
  then obtain s1 where s1: "state_after body k st = Some s1" "body s1 = Continue st'"
    by (auto split: option.splits step.splits)
  have "solve_loop body st = solve_loop body s1" by (rule Suc.IH [OF s1(1)])
  also have "\<dots> = solve_loop body st'" by (subst solve_loop.simps) (simp add: s1(2))
  finally show ?case .
qed

text \<open>A run that returns does so from a pass that a chain of continuing passes leads to.\<close>

lemma solve_loop_returns:
  "solve_loop body st = Some r \<Longrightarrow>
     \<exists>k st'. state_after body k st = Some st' \<and>
       (case body st' of Raise err \<Rightarrow> r = Inl err | Return x \<Rightarrow> r = Inr x | Continue _ \<Rightarrow> False)"
proof (induction rule: solve_loop.raw_induct [rotated 1, consumes 1])
  case (1 f body st r)
  show ?case
  proof (cases "body st")
    case (Raise err)
    with 1(2) have "state_after body 0 st = Some st \<and> r = Inl err" by simp
    with Raise show ?thesis by (intro exI [of _ 0] exI [of _ st]) simp
  next
    case (Return x)
    with 1(2) have "state_after body 0 st = Some st \<and> r = Inr x" by simp
    with Return show ?thesis by (intro exI [of _ 0] exI [of _ st]) simp
  next
    case (Continue s1)
    with 1(2) have a: "f body s1 = Some r" by simp
    from 1(1) [OF a] obtain k st' where
      "state_after body k s1 = Some st'"
      "(case body st' of Raise err \<Rightarrow> r = Inl err | Return x \<Rightarrow> r = Inr x | Continue _ \<Rightarrow> False)"
      by blast
    then show ?thesis
      using state_after_shift [of body st s1 k] Continue
      by (intro exI [of _ "Suc k"] exI [of _ st']) simp
  qed
qed

lemma iteration_step_Continue:
  assumes "iteration_step select solve cb G ponts parts st = Continue st'"
  shows "\<exists>new_edges. edges_forcees st' = edges_forcees st @ new_edges"
    and "n_quota st' = (if n_quota st > 1 then n_quota st - 1 else n_quota st)"
    and "iteration st' = iteration st + 1"
  using assms unfolding iteration_step_def Let_def
  by (auto split: sum.splits option.splits if_splits bool.splits)

lemma run_state_Suc:
  "run_state select solve cb G (Suc i) = Some s' \<longleftrightarrow>
     (\<exists>s. run_state select solve cb G i = Some s \<and>
          iteration_step select solve cb G (fst (analyser_structure G)) (snd (analyser_structure G)) s
            = Continue s')"
  by (auto simp: run_state_def split: prod.splits option.splits step.splits)

lemma run_state_quota: "run_state select solve cb G i = Some s \<Longrightarrow> 1 \<le> n_quota s"
proof (induction i arbitrary: s)
  case 0
  then show ?case
    by (auto simp: run_state_def initial_state_def initial_quota_def split: prod.splits)
next
  case (Suc i)
  then obtain s0 where s0: "run_state select solve cb G i = Some s0"
    "iteration_step select solve cb G (fst (analyser_structure G)) (snd (analyser_structure G)) s0
       = Continue s"
    by (auto simp: run_state_Suc)
  from Suc.IH [OF s0(1)] iteration_step_Continue(2) [OF s0(2)] show ?case by auto
qed

subsection \<open>The initial quota, computed\<close>

lemma floor_sqrt_bounds:
  "floor_sqrt n * floor_sqrt n \<le> n \<and> n < (floor_sqrt n + 1) * (floor_sqrt n + 1)"
proof (induction n)
  case 0
  then show ?case by simp
next
  case (Suc n)
  let ?r = "floor_sqrt n"
  show ?case
  proof (cases "(?r + 1) * (?r + 1) \<le> Suc n")
    case True
    with Suc have "(?r + 1) * (?r + 1) = Suc n" by simp
    then show ?thesis using True by (simp add: Let_def)
  next
    case False
    then show ?thesis using Suc by (simp add: Let_def)
  qed
qed

lemma floor_sqrt_real: "\<lfloor>sqrt (real n)\<rfloor> = int (floor_sqrt n)"
proof (rule floor_unique)
  let ?r = "floor_sqrt n"
  have "real (?r * ?r) \<le> real n"
    using floor_sqrt_bounds [of n] by (simp only: of_nat_le_iff)
  then have "(real ?r)\<^sup>2 \<le> real n" by (simp add: power2_eq_square)
  then have "real ?r \<le> sqrt (real n)" by (rule real_le_rsqrt)
  then show "of_int (int ?r) \<le> sqrt (real n)" by simp
  have "real n < real ((?r + 1) * (?r + 1))"
    using floor_sqrt_bounds [of n] by (simp only: of_nat_less_iff)
  then have "real n < (real ?r + 1)\<^sup>2" by (simp add: power2_eq_square algebra_simps)
  then have "sqrt (real n) < real ?r + 1" by (intro real_less_lsqrt) auto
  then show "sqrt (real n) < of_int (int ?r) + 1" by simp
qed

lemma initial_quota_code [code]:
  "initial_quota G = max 1 (int (floor_sqrt (length (nodes G))) div 2)"
proof -
  have "\<lfloor>sqrt (real (length (nodes G))) / 2\<rfloor> = \<lfloor>sqrt (real (length (nodes G)))\<rfloor> div 2"
    using floor_divide_real_eq_div [of 2 "sqrt (real (length (nodes G)))"] by simp
  then show ?thesis by (simp add: initial_quota_def number_of_nodes_def floor_sqrt_real)
qed

subsection \<open>The run on the six-vertex instance\<close>

lemma sound_scripted_solver: "sound_solver (scripted_solver script)"
  by (auto simp: sound_solver_def scripted_solver_def Let_def proposal_def feasible_def)

lemma sound_preferring_solver:
  "sound_solver solve \<Longrightarrow> sound_solver (preferring_solver p solve)"
  by (auto simp: sound_solver_def preferring_solver_def Let_def)

lemma G16_solver_sound: "sound_solver G16_solver"
  unfolding G16_solver_def by (rule sound_preferring_solver [OF sound_scripted_solver])

lemma G6_run_0:
  "run_state selection_scored (scripted_solver G6_script) G6_basis G6 0
     = Some \<lparr>iteration = 0, edges_forcees = [], n_quota = 1\<rparr>"
  by code_simp

lemma G6_run_1:
  "run_state selection_scored (scripted_solver G6_script) G6_basis G6 (Suc 0)
     = Some \<lparr>iteration = 1, edges_forcees = [(2, 6)], n_quota = 1\<rparr>"
  by code_simp

section \<open>The model of one iteration\<close>

lemma binary_sum:
  "\<forall>e \<in> set es. xv e = 0 \<or> xv e = (1::int) \<Longrightarrow>
     sum_list (map xv es) = int (length (filter (\<lambda>e. xv e = 1) es))"
  by (induction es) auto

lemma cycle_constraints_Inr:
  "cycle_constraints xs cycles = Inr cs \<Longrightarrow>
     cs = map (\<lambda>c. Constraint (aretes_du_cycle c) AtMost (int (length (aretes_du_cycle c)) - 1) []) cycles
     \<and> (\<forall>c \<in> set cycles. set (aretes_du_cycle c) \<subseteq> set xs)"
  by (induction cycles arbitrary: cs)
     (auto simp: Let_def list_all_iff split: if_splits sum.splits)

lemma build_model_Inr:
  assumes "build_model cb G parts ponts forced = Inr m"
  shows "sense m = LpMinimize" "x_keys m = all_edges G" "y_keys m = V2 parts" "objective m = V2 parts"
    "constraints m =
       Constraint (all_edges G) Equals (number_of_nodes G - 1) []
       # map (\<lambda>c. Constraint (aretes_du_cycle c) AtMost (int (length (aretes_du_cycle c)) - 1) []) (cb G)
       @ forced_constraints (all_edges G) ponts forced
       @ map (degree_constraint G parts) (nodes G)"
    "\<forall>c \<in> set (cb G). set (aretes_du_cycle c) \<subseteq> set (all_edges G)"
  using assms cycle_constraints_Inr [of "all_edges G" "cb G"]
  unfolding build_model_def Let_def
  by (auto split: sum.splits)

lemma feasible_cardinality:
  assumes "build_model cb G parts ponts forced = Inr m" "feasible m s"
  shows "int (length (filter (\<lambda>e. x_value s e = 1) (all_edges G))) = number_of_nodes G - 1"
proof -
  have "holds s (Constraint (all_edges G) Equals (number_of_nodes G - 1) [])"
    using assms by (simp add: feasible_def build_model_Inr(5) [OF assms(1)])
  then have "sum_list (map (x_value s) (all_edges G)) = number_of_nodes G - 1"
    by simp
  moreover have "\<forall>e \<in> set (all_edges G). x_value s e = 0 \<or> x_value s e = 1"
    using assms by (simp add: feasible_def build_model_Inr(2) [OF assms(1)] list_all_iff)
  ultimately show ?thesis by (simp add: binary_sum)
qed

lemma degree_constraint_analysed:
  "v \<in> set (nodes G) \<Longrightarrow>
   degree_constraint G (snd (analyser_structure G)) v =
     (if 2 < degree G v then Constraint (incidentes G v) AtMost 2 [(degree G v - 2, v)]
      else Constraint (incidentes G v) AtMost 2 [])"
  by (auto simp: degree_constraint_def analyser_structure_def)

lemma forced_constraints_absent:
  assumes "sorted_tuple e \<notin> set xs"
  shows "forced_constraints xs (removeAll e ponts) (removeAll e forced)
           = forced_constraints xs ponts forced"
proof -
  let ?P = "\<lambda>f. sorted_tuple f \<in> set xs"
  have "removeAll e ponts @ removeAll e forced = filter (\<lambda>f. e \<noteq> f) (ponts @ forced)"
    by (simp add: removeAll_filter_not_eq)
  then have "filter ?P (remdups (removeAll e ponts @ removeAll e forced))
      = filter ?P (filter (\<lambda>f. e \<noteq> f) (remdups (ponts @ forced)))"
    by (simp only: remdups_filter)
  also have "\<dots> = filter ?P (remdups (ponts @ forced))"
    using assms by (auto simp: filter_filter intro!: filter_cong)
  finally show ?thesis by (simp add: forced_constraints_def)
qed

lemma constraint_edges:
  assumes "build_model cb G parts ponts forced = Inr m"
    and "Constraint es r c ys \<in> set (constraints m)"
  shows "set es \<subseteq> set (all_edges G)"
  using assms(2) build_model_Inr(6) [OF assms(1)]
  unfolding build_model_Inr(5) [OF assms(1)]
  by (auto simp: forced_constraints_def degree_constraint_def incidentes_def split: if_splits)

lemma ilp_iteration_Some:
  assumes "resoudre_ilp_iteration solve it cb G parts ponts forced = Inr (Some sol)"
  shows "\<exists>m. build_model cb G parts ponts forced = Inr m \<and> status (solve it m) = 1 \<and>
           sol = filter (\<lambda>e. x_value (solve it m) e = 1) (all_edges G)"
  using assms unfolding resoudre_ilp_iteration_def Let_def
  by (auto split: sum.splits if_splits)

lemma ilp_iteration_candidate:
  assumes "wf_graph G"
    and "resoudre_ilp_iteration solve it cb G parts ponts forced = Inr (Some sol)"
  shows "candidate_graph G sol = \<lparr>nodes = nodes G, edges = sol\<rparr>"
    and "wf_graph (candidate_graph G sol)"
    and "set sol \<subseteq> set (all_edges G)"
proof -
  from ilp_iteration_Some [OF assms(2)] obtain P where sol: "sol = filter P (all_edges G)"
    by blast
  show sub: "set sol \<subseteq> set (all_edges G)" by (auto simp: sol)
  have d: "distinct sol" using assms(1) by (simp add: sol wf_graph_def all_edges_def)
  show eq: "candidate_graph G sol = \<lparr>nodes = nodes G, edges = sol\<rparr>"
    by (rule candidate_graph_eq [OF assms(1) sub d])
  show "wf_graph (candidate_graph G sol)"
    unfolding eq by (rule wf_selection [OF assms(1) sub d])
qed

lemma sound_selection:
  assumes "sound_solver solve"
    and "resoudre_ilp_iteration solve it cb G parts ponts forced = Inr (Some sol)"
  shows "\<exists>m s. build_model cb G parts ponts forced = Inr m \<and> feasible m s \<and>
           sol = filter (\<lambda>e. x_value s e = 1) (all_edges G)"
proof -
  from ilp_iteration_Some [OF assms(2)] obtain m where
    m: "build_model cb G parts ponts forced = Inr m" "status (solve it m) = 1"
       "sol = filter (\<lambda>e. x_value (solve it m) e = 1) (all_edges G)"
    by blast
  from assms(1) m(2) have "feasible m (solve it m)" by (simp add: sound_solver_def)
  with m show ?thesis by blast
qed

lemma sorted_aretes: "e \<in> set (aretes_du_cycle c) \<Longrightarrow> sorted_tuple e = e"
  by (auto simp: aretes_du_cycle_def)

lemma has_edge_selection:
  assumes "set sol \<subseteq> set (all_edges G)"
  shows "has_edge \<lparr>nodes = ns, edges = sol\<rparr> e \<longleftrightarrow> sorted_tuple e \<in> set sol"
proof -
  have "map sorted_tuple sol = sol"
    using assms by (intro map_idI) (auto dest: sorted_tuple_all_edges)
  then show ?thesis by (simp add: has_edge_def)
qed

lemma feasible_cycle:
  assumes "build_model cb G parts ponts forced = Inr m" "feasible m s" "cycle \<in> set (cb G)"
  shows "int (length (filter (\<lambda>e. x_value s e = 1) (aretes_du_cycle cycle)))
           \<le> int (length (aretes_du_cycle cycle)) - 1"
proof -
  let ?a = "aretes_du_cycle cycle"
  have "Constraint ?a AtMost (int (length ?a) - 1) [] \<in> set (constraints m)"
    using assms(3) by (auto simp: build_model_Inr(5) [OF assms(1)])
  moreover from assms(2) have "\<forall>c \<in> set (constraints m). holds s c"
    by (simp add: feasible_def list_all_iff)
  ultimately have "holds s (Constraint ?a AtMost (int (length ?a) - 1) [])"
    by blast
  then have "sum_list (map (x_value s) ?a) \<le> int (length ?a) - 1" by simp
  moreover have "\<forall>e \<in> set ?a. x_value s e = 0 \<or> x_value s e = 1"
    using assms(2,3) build_model_Inr(6) [OF assms(1)]
    by (auto simp: feasible_def build_model_Inr(2) [OF assms(1)] list_all_iff)
  ultimately show ?thesis by (simp add: binary_sum)
qed

lemma candidate_cycle:
  assumes "wf_graph G" and "sound_solver solve" and "cycle \<in> set (cb G)"
    and "resoudre_ilp_iteration solve it cb G parts ponts forced = Inr (Some sol)"
  shows "int (length (filter (has_edge (candidate_graph G sol)) (aretes_du_cycle cycle)))
           \<le> int (length (aretes_du_cycle cycle)) - 1"
proof -
  note cand = ilp_iteration_candidate [OF assms(1,4)]
  from sound_selection [OF assms(2,4)] obtain m s where
    m: "build_model cb G parts ponts forced = Inr m" "feasible m s"
       "sol = filter (\<lambda>e. x_value s e = 1) (all_edges G)"
    by blast
  have "filter (has_edge (candidate_graph G sol)) (aretes_du_cycle cycle)
      = filter (\<lambda>e. x_value s e = 1) (aretes_du_cycle cycle)"
  proof (rule filter_cong [OF refl])
    fix e assume e: "e \<in> set (aretes_du_cycle cycle)"
    then have "e \<in> set (all_edges G)"
      using build_model_Inr(6) [OF m(1)] assms(3) by blast
    then show "has_edge (candidate_graph G sol) e \<longleftrightarrow> x_value s e = 1"
      using sorted_aretes [OF e] cand(3)
      by (simp add: cand(1) has_edge_selection [of sol G]) (simp add: m(3))
  qed
  with feasible_cycle [OF m(1,2) assms(3)] show ?thesis by simp
qed

lemma wf_remove_edge: "wf_graph G \<Longrightarrow> wf_graph (remove_edge e G)"
  by (auto simp: wf_graph_def remove_edge_def distinct_map_filter)

lemma bridges_iff:
  assumes "wf_graph G" "e \<in> set (edges G)"
  shows "e \<in> set (bridges G) \<longleftrightarrow> (fst e, snd e) \<notin> (adjacent (remove_edge e G))\<^sup>*"
proof -
  have "fst e \<in> set (nodes (remove_edge e G))"
    using assms by (cases e) (auto simp: wf_graph_def remove_edge_def)
  from set_plain_bfs [OF wf_remove_edge [OF assms(1)] this] assms(2)
  show ?thesis by (simp add: bridges_def)
qed

lemma feasible_forced:
  assumes "build_model cb G parts ponts forced = Inr m" "feasible m s"
    and "e \<in> set ponts \<union> set forced" "has_edge G e"
  shows "x_value s (sorted_tuple e) = 1"
proof -
  from assms(4) have "sorted_tuple e \<in> set (all_edges G)"
    by (simp add: has_edge_def all_edges_def)
  with assms(3) have "Constraint [sorted_tuple e] Equals 1 [] \<in> set (constraints m)"
    by (auto simp: build_model_Inr(5) [OF assms(1)] forced_constraints_def)
  moreover from assms(2) have "\<forall>c \<in> set (constraints m). holds s c"
    by (simp add: feasible_def list_all_iff)
  ultimately have "holds s (Constraint [sorted_tuple e] Equals 1 [])" by blast
  then show ?thesis by simp
qed

lemma candidate_forced:
  assumes "wf_graph G" and "sound_solver solve"
    and "resoudre_ilp_iteration solve it cb G parts ponts forced = Inr (Some sol)"
    and "e \<in> set ponts \<union> set forced" "has_edge G e"
  shows "has_edge (candidate_graph G sol) e"
proof -
  note cand = ilp_iteration_candidate [OF assms(1,3)]
  from sound_selection [OF assms(2,3)] obtain m s where
    m: "build_model cb G parts ponts forced = Inr m" "feasible m s"
       "sol = filter (\<lambda>e. x_value s e = 1) (all_edges G)"
    by blast
  from assms(5) have "sorted_tuple e \<in> set (all_edges G)"
    by (simp add: has_edge_def all_edges_def)
  with feasible_forced [OF m(1,2) assms(4,5)] have "sorted_tuple e \<in> set sol"
    by (simp add: m(3))
  then show ?thesis
    using cand(3) by (simp add: cand(1) has_edge_selection [of sol G])
qed

subsection \<open>The models of the instances\<close>

lemma GB_build:
  "build_model GB_basis GB (snd (analyser_structure GB)) (fst (analyser_structure GB)) [] = Inr GB_model"
  by code_simp

lemma GB_build_absent:
  "build_model GB_basis GB (snd (analyser_structure GB)) (fst (analyser_structure GB)) [(4, 1)] = Inr GB_model"
  by code_simp

lemma G2_build:
  "build_model no_cycles G2 (snd (analyser_structure G2)) (fst (analyser_structure G2)) [] = Inr G2_model"
  by code_simp

lemma G1_build:
  "build_model no_cycles G1 (snd (analyser_structure G1)) (fst (analyser_structure G1)) [] = Inr G1_model"
  by code_simp

lemma GB_facts:
  "3 \<in> set (nodes GB)" "2 < degree GB 3" "incidentes GB 3 = [(1, 3), (2, 3), (3, 4)]"
  "4 \<in> set (nodes GB)" "degree GB 4 \<le> 2" "incidentes GB 4 = [(3, 4)]" "degree GB 3 = 3"
  by code_simp+

lemma GB_feasible: "feasible GB_model (proposal [(1, 2), (2, 3), (3, 4)] [])"
  by code_simp

lemma GB_absent: "\<not> has_edge GB (4, 1)"
  by code_simp

lemma GB_ponts: "fst (analyser_structure GB) = [(3, 4)]"
  by code_simp

lemma GB_build_ponts:
  "build_model GB_basis GB (snd (analyser_structure GB)) [(3, 4)] [(4, 1)] = Inr GB_model"
  using GB_build_absent by (simp add: GB_ponts)

lemma GB_model_forced: "Constraint [(3, 4)] Equals 1 [] \<in> set (constraints GB_model)"
  by (simp add: GB_model_def)

lemma G2_run_0:
  "run_state selection_scored (scripted_solver [([], [])]) no_cycles G2 0
     = Some \<lparr>iteration = 0, edges_forcees = [], n_quota = 1\<rparr>"
  by code_simp

lemma G2_status: "status (scripted_solver [([], [])] 1 G2_model) = - 1"
  by code_simp

lemma G1_run_0:
  "run_state selection_scored (scripted_solver [([], [])]) no_cycles G1 0
     = Some \<lparr>iteration = 0, edges_forcees = [], n_quota = 1\<rparr>"
  by code_simp

lemma G1_status: "status (scripted_solver [([], [])] 1 G1_model) = 1"
  by code_simp

lemma G1_feasible: "feasible G1_model (scripted_solver [([], [])] 1 G1_model)"
  by code_simp

lemma G1_selection:
  "filter (\<lambda>e. x_value (scripted_solver [([], [])] 1 G1_model) e = 1) (all_edges G1) = []"
  by code_simp

lemma G6_wf: "wf_graph G6"
  by code_simp

lemma G6_returns: "resoudre_mbvst (scripted_solver G6_script) G6_basis G6 = Some (Inr (Some T6))"
  by code_simp

lemma G6_iteration_1:
  "resoudre_ilp_iteration (scripted_solver G6_script) 1 G6_basis G6 (snd (analyser_structure G6))
     (fst (analyser_structure G6)) [] = Inr (Some [(1, 2), (1, 3), (2, 3), (4, 5), (5, 6)])"
  by code_simp

lemma G6_cycle: "[2, 1, 5, 4, 3] \<in> set (G6_basis G6)"
  by (simp add: G6_basis_def)

text \<open>
  C7. In every model the builder returns for the analysed partition, a vertex of degree
  above 2 has the constraint "sum of the selection variables of its incident edges at most
  \<open>2 + (deg(v) - 2) * y[v]\<close>", a vertex of degree at most 2 has the bound 2, and the
  objective, to be minimised, is the sum of the branch indicators of the vertices of
  degree above 2. Every assignment that satisfies the model obeys these bounds.
\<close>

theorem degree_caps_and_objective:
  assumes "build_model cycle_basis G (snd (analyser_structure G)) ponts forced = Inr m"
  shows "sense m = LpMinimize \<and>
         objective m = filter (\<lambda>v. 2 < degree G v) (nodes G) \<and>
         y_keys m = filter (\<lambda>v. 2 < degree G v) (nodes G) \<and>
         (\<forall>v \<in> set (nodes G).
            (2 < degree G v \<longrightarrow>
               Constraint (incidentes G v) AtMost 2 [(degree G v - 2, v)] \<in> set (constraints m)) \<and>
            (degree G v \<le> 2 \<longrightarrow>
               Constraint (incidentes G v) AtMost 2 [] \<in> set (constraints m))) \<and>
         (\<forall>s. feasible m s \<longrightarrow>
            (\<forall>v \<in> set (nodes G).
               sum_list (map (x_value s) (incidentes G v))
                 \<le> (if 2 < degree G v then 2 + (degree G v - 2) * y_value s v else 2)))"
proof (intro conjI ballI allI impI)
  show "sense m = LpMinimize" by (rule build_model_Inr(1) [OF assms])
  have "(\<lambda>v. \<not> degree G v \<le> 2) = (\<lambda>v. 2 < degree G v)" by auto
  then have v2: "V2 (snd (analyser_structure G)) = filter (\<lambda>v. 2 < degree G v) (nodes G)"
    by (simp add: analyser_structure_def)
  show "objective m = filter (\<lambda>v. 2 < degree G v) (nodes G)"
    using build_model_Inr(4) [OF assms] v2 by simp
  show "y_keys m = filter (\<lambda>v. 2 < degree G v) (nodes G)"
    using build_model_Inr(3) [OF assms] v2 by simp
next
  fix v assume v: "v \<in> set (nodes G)"
  then have mem: "degree_constraint G (snd (analyser_structure G)) v \<in> set (constraints m)"
    by (simp add: build_model_Inr(5) [OF assms])
  {
    assume "2 < degree G v"
    with mem v show "Constraint (incidentes G v) AtMost 2 [(degree G v - 2, v)] \<in> set (constraints m)"
      by (simp add: degree_constraint_analysed)
  }
  {
    assume "degree G v \<le> 2"
    with mem v show "Constraint (incidentes G v) AtMost 2 [] \<in> set (constraints m)"
      by (simp add: degree_constraint_analysed)
  }
next
  fix s v assume s: "feasible m s" and v: "v \<in> set (nodes G)"
  then have mem: "degree_constraint G (snd (analyser_structure G)) v \<in> set (constraints m)"
    by (simp add: build_model_Inr(5) [OF assms])
  with s have "holds s (degree_constraint G (snd (analyser_structure G)) v)"
    by (simp add: feasible_def list_all_iff)
  then show "sum_list (map (x_value s) (incidentes G v))
                 \<le> (if 2 < degree G v then 2 + (degree G v - 2) * y_value s v else 2)"
    using v by (simp add: degree_constraint_analysed split: if_splits)
qed

theorem degree_caps_and_objective_witness:
  "build_model GB_basis GB (snd (analyser_structure GB)) (fst (analyser_structure GB)) [] = Inr GB_model \<and>
   3 \<in> set (nodes GB) \<and> 2 < degree GB 3 \<and>
   Constraint (incidentes GB 3) AtMost 2 [(degree GB 3 - 2, 3)] \<in> set (constraints GB_model) \<and>
   4 \<in> set (nodes GB) \<and> degree GB 4 \<le> 2 \<and>
   Constraint (incidentes GB 4) AtMost 2 [] \<in> set (constraints GB_model) \<and>
   feasible GB_model (proposal [(1, 2), (2, 3), (3, 4)] []) \<and>
   sum_list (map (x_value (proposal [(1, 2), (2, 3), (3, 4)] [])) (incidentes GB 3))
     \<le> 2 + (degree GB 3 - 2) * y_value (proposal [(1, 2), (2, 3), (3, 4)] []) 3"
proof -
  note t = degree_caps_and_objective [OF GB_build]
  from t GB_facts(1,2)
  have a: "Constraint (incidentes GB 3) AtMost 2 [(degree GB 3 - 2, 3)] \<in> set (constraints GB_model)"
    by blast
  from t GB_facts(4,5)
  have b: "Constraint (incidentes GB 4) AtMost 2 [] \<in> set (constraints GB_model)"
    by blast
  from t GB_feasible GB_facts(1)
  have "sum_list (map (x_value (proposal [(1, 2), (2, 3), (3, 4)] [])) (incidentes GB 3))
     \<le> (if 2 < degree GB 3
         then 2 + (degree GB 3 - 2) * y_value (proposal [(1, 2), (2, 3), (3, 4)] []) 3 else 2)"
    by blast
  then have c: "sum_list (map (x_value (proposal [(1, 2), (2, 3), (3, 4)] [])) (incidentes GB 3))
     \<le> 2 + (degree GB 3 - 2) * y_value (proposal [(1, 2), (2, 3), (3, 4)] []) 3"
    by (simp only: GB_facts(2) if_True)
  from a b c GB_build GB_facts(1,2,4,5) GB_feasible show ?thesis by blast
qed

text \<open>
  C9. A forced edge (bridge or reconnection edge) that the graph does not have is skipped:
  the builder returns what it returns without that edge (the same model or the same
  error), and no constraint of the model mentions it.
\<close>

theorem absent_forced_edge_skipped:
  assumes "\<not> has_edge G e"
  shows "build_model cycle_basis G parts ponts forced
           = build_model cycle_basis G parts (removeAll e ponts) (removeAll e forced) \<and>
         (\<forall>m es r c ys.
            build_model cycle_basis G parts ponts forced = Inr m \<and>
            Constraint es r c ys \<in> set (constraints m)
            \<longrightarrow> sorted_tuple e \<notin> set es \<and> e \<notin> set es)"
proof (intro conjI allI impI)
  from assms have absent: "sorted_tuple e \<notin> set (all_edges G)"
    by (simp add: has_edge_def all_edges_def)
  show "build_model cycle_basis G parts ponts forced
           = build_model cycle_basis G parts (removeAll e ponts) (removeAll e forced)"
    by (simp add: build_model_def Let_def forced_constraints_absent [OF absent] split: sum.splits)
  fix m es r c ys
  assume "build_model cycle_basis G parts ponts forced = Inr m \<and>
            Constraint es r c ys \<in> set (constraints m)"
  then have sub: "set es \<subseteq> set (all_edges G)" using constraint_edges by blast
  with absent show "sorted_tuple e \<notin> set es" by blast
  show "e \<notin> set es"
  proof
    assume "e \<in> set es"
    with sub have "e \<in> set (all_edges G)" by blast
    then have "sorted_tuple e = e" by (auto simp: all_edges_def)
    with \<open>e \<in> set (all_edges G)\<close> absent show False by simp
  qed
qed

theorem absent_forced_edge_skipped_witness:
  "\<not> has_edge GB (4, 1) \<and>
   build_model GB_basis GB (snd (analyser_structure GB)) [(3, 4)] [(4, 1)]
     = build_model GB_basis GB (snd (analyser_structure GB)) [(3, 4)] [] \<and>
   build_model GB_basis GB (snd (analyser_structure GB)) [(3, 4)] [(4, 1)] = Inr GB_model \<and>
   Constraint [(3, 4)] Equals 1 [] \<in> set (constraints GB_model) \<and>
   sorted_tuple (4, 1) \<notin> set [(3, 4)] \<and> ((4, 1) :: edge) \<notin> set [(3, 4)]"
proof -
  note t = absent_forced_edge_skipped [OF GB_absent, of GB_basis "snd (analyser_structure GB)"
      "[(3, 4)]" "[(4, 1)]"]
  from t have a: "build_model GB_basis GB (snd (analyser_structure GB)) [(3, 4)] [(4, 1)]
     = build_model GB_basis GB (snd (analyser_structure GB)) [(3, 4)] []"
    by simp
  from t GB_build_ponts GB_model_forced
  have b: "sorted_tuple (4, 1) \<notin> set [(3, 4)] \<and> ((4, 1) :: edge) \<notin> set [(3, 4)]"
    by blast
  from a b GB_absent GB_build_ponts GB_model_forced show ?thesis by blast
qed

section \<open>Failure of the solve loop\<close>

lemma iteration_step_None:
  assumes "build_model cb G parts ponts (edges_forcees st) = Inr m"
    and "status (solve (iteration st + 1) m) \<noteq> 1"
  shows "iteration_step select solve cb G ponts parts st = Return None"
  using assms by (simp add: iteration_step_def resoudre_ilp_iteration_def Let_def)

lemma iteration_step_empty:
  assumes "build_model cb G parts ponts (edges_forcees st) = Inr m"
    and "status (solve (iteration st + 1) m) = 1"
    and "filter (\<lambda>e. x_value (solve (iteration st + 1) m) e = 1) (all_edges G) = []"
  shows "iteration_step select solve cb G ponts parts st = Return None"
  using assms by (simp add: iteration_step_def resoudre_ilp_iteration_def Let_def)

lemma run_returns:
  assumes "run_state select solve cb G k = Some st"
    and "iteration_step select solve cb G (fst (analyser_structure G)) (snd (analyser_structure G)) st
           = Return r"
  shows "resoudre_mbvst_with select solve cb G = Some (Inr r)"
proof -
  let ?body = "iteration_step select solve cb G (fst (analyser_structure G)) (snd (analyser_structure G))"
  from assms(1) have "state_after ?body k (initial_state G) = Some st"
    by (simp add: run_state_def case_prod_beta)
  then have "solve_loop ?body (initial_state G) = solve_loop ?body st"
    by (rule state_after_loop)
  also have "\<dots> = Some (Inr r)"
    by (subst solve_loop.simps) (simp add: assms(2))
  finally show ?thesis by (simp add: resoudre_mbvst_with_def case_prod_beta)
qed

text \<open>
  C8. When the solver does not answer optimal (status other than 1) in some pass, that
  pass returns the failure value and so does the whole run: it returns, and it returns
  \<open>None\<close>, no tree.
\<close>

theorem infeasible_model_returns_None:
  assumes "run_state selection_scored solve cycle_basis G k = Some st"
    and "build_model cycle_basis G (snd (analyser_structure G)) (fst (analyser_structure G))
           (edges_forcees st) = Inr m"
    and "status (solve (iteration st + 1) m) \<noteq> 1"
  shows "iteration_step selection_scored solve cycle_basis G (fst (analyser_structure G))
           (snd (analyser_structure G)) st = Return None \<and>
         resoudre_mbvst solve cycle_basis G = Some (Inr None)"
proof -
  have "iteration_step selection_scored solve cycle_basis G (fst (analyser_structure G))
           (snd (analyser_structure G)) st = Return None"
    using assms(2,3) by (rule iteration_step_None)
  with run_returns [OF assms(1)] show ?thesis
    by (simp add: resoudre_mbvst_def)
qed

theorem infeasible_model_returns_None_witness:
  "run_state selection_scored (scripted_solver [([], [])]) no_cycles G2 0
     = Some \<lparr>iteration = 0, edges_forcees = [], n_quota = 1\<rparr> \<and>
   build_model no_cycles G2 (snd (analyser_structure G2)) (fst (analyser_structure G2)) [] = Inr G2_model \<and>
   status (scripted_solver [([], [])] 1 G2_model) \<noteq> 1 \<and>
   resoudre_mbvst (scripted_solver [([], [])]) no_cycles G2 = Some (Inr None)"
proof -
  have "status (scripted_solver [([], [])]
      (iteration \<lparr>iteration = 0, edges_forcees = [], n_quota = 1\<rparr> + 1) G2_model) \<noteq> 1"
    using G2_status by simp
  from infeasible_model_returns_None [OF G2_run_0 _ this] G2_build G2_run_0 G2_status
  show ?thesis by simp
qed

text \<open>
  C10. When the solver answers optimal and no selection variable is 1, the run returns the
  failure value as well, the same result as for an infeasible model. If the answer
  satisfies the model, this happens only on a graph with a single vertex.
\<close>

theorem empty_selection_returns_None:
  assumes "run_state select solve cycle_basis G k = Some st"
    and "build_model cycle_basis G (snd (analyser_structure G)) (fst (analyser_structure G))
           (edges_forcees st) = Inr m"
    and "status (solve (iteration st + 1) m) = 1"
    and "filter (\<lambda>e. x_value (solve (iteration st + 1) m) e = 1) (all_edges G) = []"
  shows "resoudre_mbvst_with select solve cycle_basis G = Some (Inr None) \<and>
         (feasible m (solve (iteration st + 1) m) \<longrightarrow> number_of_nodes G = 1)"
proof
  have "iteration_step select solve cycle_basis G (fst (analyser_structure G))
           (snd (analyser_structure G)) st = Return None"
    using assms(2,3,4) by (rule iteration_step_empty)
  with run_returns [OF assms(1)]
  show "resoudre_mbvst_with select solve cycle_basis G = Some (Inr None)" by simp
next
  show "feasible m (solve (iteration st + 1) m) \<longrightarrow> number_of_nodes G = 1"
  proof
    assume "feasible m (solve (iteration st + 1) m)"
    from feasible_cardinality [OF assms(2) this] show "number_of_nodes G = 1"
      by (simp only: assms(4)) simp
  qed
qed

theorem empty_selection_returns_None_witness:
  "run_state selection_scored (scripted_solver [([], [])]) no_cycles G1 0
     = Some \<lparr>iteration = 0, edges_forcees = [], n_quota = 1\<rparr> \<and>
   build_model no_cycles G1 (snd (analyser_structure G1)) (fst (analyser_structure G1)) [] = Inr G1_model \<and>
   status (scripted_solver [([], [])] 1 G1_model) = 1 \<and>
   filter (\<lambda>e. x_value (scripted_solver [([], [])] 1 G1_model) e = 1) (all_edges G1) = [] \<and>
   feasible G1_model (scripted_solver [([], [])] 1 G1_model) \<and>
   resoudre_mbvst_with selection_scored (scripted_solver [([], [])]) no_cycles G1 = Some (Inr None) \<and>
   number_of_nodes G1 = 1"
proof -
  have a: "build_model no_cycles G1 (snd (analyser_structure G1)) (fst (analyser_structure G1))
      (edges_forcees \<lparr>iteration = 0, edges_forcees = [], n_quota = 1\<rparr>) = Inr G1_model"
    using G1_build by simp
  have b: "status (scripted_solver [([], [])]
      (iteration \<lparr>iteration = 0, edges_forcees = [], n_quota = 1\<rparr> + 1) G1_model) = 1"
    using G1_status by simp
  have c: "filter (\<lambda>e. x_value (scripted_solver [([], [])]
      (iteration \<lparr>iteration = 0, edges_forcees = [], n_quota = 1\<rparr> + 1) G1_model) e = 1)
      (all_edges G1) = []"
    using G1_selection by simp
  from empty_selection_returns_None [OF G1_run_0 a b c] G1_run_0 G1_build G1_status G1_selection
    G1_feasible
  show ?thesis by simp
qed

section \<open>What the candidates and the returned tree satisfy\<close>

lemma iteration_step_Return_Some:
  assumes "iteration_step select solve cb G ponts parts st = Return (Some T)"
  shows "\<exists>sol. resoudre_ilp_iteration solve (iteration st + 1) cb G parts ponts (edges_forcees st)
                 = Inr (Some sol) \<and>
               sol \<noteq> [] \<and> T = candidate_graph G sol \<and> is_connected T = Inr True"
  using assms unfolding iteration_step_def Let_def
  by (auto split: sum.splits option.splits if_splits bool.splits)

lemma returned_tree:
  assumes "resoudre_mbvst_with select solve cb G = Some (Inr (Some T))"
  shows "\<exists>k st sol.
           run_state select solve cb G k = Some st \<and>
           resoudre_ilp_iteration solve (iteration st + 1) cb G (snd (analyser_structure G))
             (fst (analyser_structure G)) (edges_forcees st) = Inr (Some sol) \<and>
           sol \<noteq> [] \<and> T = candidate_graph G sol \<and> is_connected T = Inr True"
proof -
  let ?body = "iteration_step select solve cb G (fst (analyser_structure G)) (snd (analyser_structure G))"
  let ?r = "Inr (Some T) :: error + graph option"
  from assms have "solve_loop ?body (initial_state G) = Some ?r"
    by (simp add: resoudre_mbvst_with_def case_prod_beta)
  from solve_loop_returns [OF this] obtain k st where
    k: "state_after ?body k (initial_state G) = Some st" and
    r: "(case ?body st of Raise err \<Rightarrow> ?r = Inl err | Return x \<Rightarrow> ?r = Inr x
          | Continue _ \<Rightarrow> False)"
    by blast
  from r have "?body st = Return (Some T)" by (cases "?body st") auto
  from iteration_step_Return_Some [OF this] k show ?thesis
    by (auto simp: run_state_def case_prod_beta)
qed

lemma is_connected_True:
  assumes "wf_graph T" "is_connected T = Inr True"
  shows "connected T"
proof -
  from assms(2) have "nodes T \<noteq> []" by (auto simp: is_connected_def)
  from is_connected_iff [OF assms(1) this] assms(2) show ?thesis by simp
qed

text \<open>
  C1. When \<open>resoudre_mbvst\<close> returns a tree \<open>T\<close> for a graph \<open>G\<close> on \<open>n\<close> vertices, \<open>T\<close>
  has the vertices of \<open>G\<close>, its edges are edges of \<open>G\<close> (each once), it has exactly
  \<open>n - 1\<close> edges, and a path joins every two of its vertices. The solver is taken to keep
  its contract: an answer of status 1 satisfies the model.
\<close>

theorem returned_tree_spans:
  assumes "wf_graph G" and "sound_solver solve"
    and "resoudre_mbvst solve cycle_basis G = Some (Inr (Some T))"
  shows "nodes T = nodes G \<and> set (edges T) \<subseteq> set (all_edges G) \<and> wf_graph T \<and>
         number_of_edges T = number_of_nodes G - 1 \<and> connected T"
proof -
  from assms(3) have "resoudre_mbvst_with selection_scored solve cycle_basis G = Some (Inr (Some T))"
    by (simp add: resoudre_mbvst_def)
  from returned_tree [OF this] obtain k :: nat and st :: loop_state and sol where
    sol: "resoudre_ilp_iteration solve (iteration st + 1) cycle_basis G (snd (analyser_structure G))
             (fst (analyser_structure G)) (edges_forcees st) = Inr (Some sol)"
    and T: "T = candidate_graph G sol" and c: "is_connected T = Inr True"
    by auto
  note cand = ilp_iteration_candidate [OF assms(1) sol]
  from sound_selection [OF assms(2) sol] obtain m s where
    m: "build_model cycle_basis G (snd (analyser_structure G)) (fst (analyser_structure G))
          (edges_forcees st) = Inr m" "feasible m s"
       "sol = filter (\<lambda>e. x_value s e = 1) (all_edges G)"
    by blast
  have "int (length sol) = number_of_nodes G - 1"
    using feasible_cardinality [OF m(1,2)] by (simp add: m(3))
  then have n: "number_of_edges T = number_of_nodes G - 1"
    by (simp add: T cand(1) number_of_edges_def)
  have w: "wf_graph T" using cand(2) by (simp add: T)
  from is_connected_True [OF w c] n w cand(1,3) show ?thesis by (simp add: T)
qed

theorem returned_tree_spans_witness:
  "wf_graph G6 \<and> sound_solver (scripted_solver G6_script) \<and>
   resoudre_mbvst (scripted_solver G6_script) G6_basis G6 = Some (Inr (Some T6)) \<and>
   nodes T6 = nodes G6 \<and> set (edges T6) \<subseteq> set (all_edges G6) \<and> wf_graph T6 \<and>
   number_of_edges T6 = number_of_nodes G6 - 1 \<and> connected T6"
  using returned_tree_spans [OF G6_wf sound_scripted_solver G6_returns]
    G6_wf sound_scripted_solver G6_returns
  by blast

text \<open>
  C2. Under the solver's contract, for every cycle \<open>C\<close> of the basis, the candidate of
  every pass (whatever edges are forced) and the tree the run returns hold at most
  \<open>|C| - 1\<close> of the edges of \<open>C\<close>.
\<close>

theorem no_basis_cycle_fully_selected:
  assumes "wf_graph G" and "sound_solver solve" and "cycle \<in> set (cycle_basis G)"
  shows "(\<forall>it parts ponts forced sol_edges.
            resoudre_ilp_iteration solve it cycle_basis G parts ponts forced = Inr (Some sol_edges) \<longrightarrow>
            int (length (filter (has_edge (candidate_graph G sol_edges)) (aretes_du_cycle cycle)))
              \<le> int (length (aretes_du_cycle cycle)) - 1) \<and>
         (\<forall>T. resoudre_mbvst solve cycle_basis G = Some (Inr (Some T)) \<longrightarrow>
            int (length (filter (has_edge T) (aretes_du_cycle cycle)))
              \<le> int (length (aretes_du_cycle cycle)) - 1)"
proof (intro conjI allI impI)
  fix it parts ponts forced sol_edges
  assume "resoudre_ilp_iteration solve it cycle_basis G parts ponts forced = Inr (Some sol_edges)"
  then show "int (length (filter (has_edge (candidate_graph G sol_edges)) (aretes_du_cycle cycle)))
              \<le> int (length (aretes_du_cycle cycle)) - 1"
    using assms by (intro candidate_cycle)
next
  fix T assume "resoudre_mbvst solve cycle_basis G = Some (Inr (Some T))"
  then have "resoudre_mbvst_with selection_scored solve cycle_basis G = Some (Inr (Some T))"
    by (simp add: resoudre_mbvst_def)
  from returned_tree [OF this] obtain k :: nat and st :: loop_state and sol where
    sol: "resoudre_ilp_iteration solve (iteration st + 1) cycle_basis G (snd (analyser_structure G))
             (fst (analyser_structure G)) (edges_forcees st) = Inr (Some sol)"
    and T: "T = candidate_graph G sol"
    by auto
  from candidate_cycle [where cb = cycle_basis, OF assms sol]
  show "int (length (filter (has_edge T) (aretes_du_cycle cycle)))
              \<le> int (length (aretes_du_cycle cycle)) - 1"
    by (simp add: T)
qed

theorem no_basis_cycle_fully_selected_witness:
  "wf_graph G6 \<and> sound_solver (scripted_solver G6_script) \<and> [2, 1, 5, 4, 3] \<in> set (G6_basis G6) \<and>
   resoudre_ilp_iteration (scripted_solver G6_script) 1 G6_basis G6 (snd (analyser_structure G6))
     (fst (analyser_structure G6)) [] = Inr (Some [(1, 2), (1, 3), (2, 3), (4, 5), (5, 6)]) \<and>
   int (length (filter (has_edge (candidate_graph G6 [(1, 2), (1, 3), (2, 3), (4, 5), (5, 6)]))
          (aretes_du_cycle [2, 1, 5, 4, 3])))
     \<le> int (length (aretes_du_cycle [2, 1, 5, 4, 3])) - 1 \<and>
   resoudre_mbvst (scripted_solver G6_script) G6_basis G6 = Some (Inr (Some T6)) \<and>
   int (length (filter (has_edge T6) (aretes_du_cycle [2, 1, 5, 4, 3])))
     \<le> int (length (aretes_du_cycle [2, 1, 5, 4, 3])) - 1"
  using no_basis_cycle_fully_selected [where cycle_basis = G6_basis and solve = "scripted_solver G6_script",
      OF G6_wf sound_scripted_solver G6_cycle]
    G6_wf sound_scripted_solver G6_cycle G6_iteration_1 G6_returns
  by blast

section \<open>The repair step of the scored variant\<close>

lemma selection_nodes:
  assumes "wf_graph G" "set sol \<subseteq> set (all_edges G)" "sol \<noteq> []"
  shows "nodes G \<noteq> []"
proof -
  from assms(3) obtain u v where "(u, v) \<in> set sol" by (cases sol) auto
  with assms(2) have "(u, v) \<in> set (all_edges G)" by blast
  from all_edges_nodes [OF assms(1) this] show ?thesis by auto
qed

lemma scored_prefix:
  assumes "1 \<le> q"
  shows "py_prefix xs (min (int (length cands)) q) = take (min (length cands) (nat q)) xs"
proof -
  have "0 \<le> min (int (length cands)) q" using assms by simp
  moreover have "nat (min (int (length cands)) q) = min (length cands) (nat q)"
    using assms by (simp add: min_def) linarith
  ultimately show ?thesis by (simp add: py_prefix_def)
qed

lemma iteration_step_repair:
  assumes "wf_graph G"
    and "resoudre_ilp_iteration solve (iteration st + 1) cb G parts ponts (edges_forcees st)
           = Inr (Some sol)"
    and "sol \<noteq> []" and "\<not> connected (candidate_graph G sol)" and "1 \<le> n_quota st"
    and "cands = map sorted_tuple (filter (\<lambda>e. e \<notin> (adjacent (candidate_graph G sol))\<^sup>*) (edges G))"
  shows "iteration_step selection_scored solve cb G ponts parts st =
           Continue
             \<lparr>iteration = iteration st + 1,
              edges_forcees = edges_forcees st @
                take (min (length cands) (nat (n_quota st)))
                  (sort_key (score_arete (candidate_graph G sol)) cands),
              n_quota = max 1 (n_quota st - 1)\<rparr>"
proof -
  let ?T = "candidate_graph G sol"
  note cand = ilp_iteration_candidate [OF assms(1,2)]
  have "nodes ?T \<noteq> []"
    using selection_nodes [OF assms(1) cand(3) assms(3)] by (simp add: cand(1))
  from is_connected_iff [OF cand(2) this] assms(4)
  have c: "is_connected ?T = Inr False" by simp
  have "\<forall>(u, v) \<in> set (edges G). u \<in> set (nodes ?T) \<and> v \<in> set (nodes ?T)"
    using assms(1) by (simp add: cand(1) wf_graph_def)
  from candidates_of_components [OF cand(2) this]
  have k: "candidates_of (connected_components ?T) (edges G) = Inr cands"
    by (simp add: assms(6))
  have s: "selection_scored (iteration st + 1) ?T cands (n_quota st)
      = Inr (take (min (length cands) (nat (n_quota st))) (sort_key (score_arete ?T) cands))"
    by (simp add: selection_scored_def Let_def scored_prefix [OF assms(5)])
  have q: "(if 1 < n_quota st then n_quota st - 1 else n_quota st) = max 1 (n_quota st - 1)"
    using assms(5) by auto
  show ?thesis
  proof (cases "cands = []")
    case True
    then show ?thesis
      using assms(2,3) c k q by (simp add: iteration_step_def Let_def)
  next
    case False
    then show ?thesis
      using assms(2,3) c k q s by (simp add: iteration_step_def Let_def)
  qed
qed

lemma G6_first_disconnected:
  "is_connected (candidate_graph G6 [(1, 2), (1, 3), (2, 3), (4, 5), (5, 6)]) = Inr False"
  by code_simp

lemma G6_first_candidates:
  "candidates_of (connected_components (candidate_graph G6 [(1, 2), (1, 3), (2, 3), (4, 5), (5, 6)]))
     (edges G6) = Inr [(1, 5), (2, 6), (3, 4)]"
  by code_simp

text \<open>
  C3. In the scored variant, at a pass of the run whose candidate \<open>T\<close> is not connected
  and for which some edge of \<open>G\<close> joins two vertices that no path of \<open>T\<close> joins, the
  candidates are these edges, in the order \<open>G\<close> enumerates them. They are ranked by the
  sum of the degrees of their two endpoints in \<open>T\<close>: the ranking is a rearrangement of the
  candidates, ascending in that score, and candidates of equal score keep their order.
  The next state has the first \<open>min(|candidates|, quota)\<close> of the ranking appended to the
  forced edges.
\<close>

theorem scored_repair_step:
  assumes "wf_graph G"
    and "run_state selection_scored solve cycle_basis G k = Some st"
    and "resoudre_ilp_iteration solve (iteration st + 1) cycle_basis G (snd (analyser_structure G))
           (fst (analyser_structure G)) (edges_forcees st) = Inr (Some sol_edges)"
    and "sol_edges \<noteq> []"
    and "T = candidate_graph G sol_edges"
    and "\<not> connected T"
    and "candidates = map sorted_tuple (filter (\<lambda>e. e \<notin> (adjacent T)\<^sup>*) (edges G))"
    and "candidates \<noteq> []"
  shows "\<exists>ranked.
           mset ranked = mset candidates \<and>
           sorted (map (\<lambda>e. degree T (fst e) + degree T (snd e)) ranked) \<and>
           (\<forall>s. filter (\<lambda>e. degree T (fst e) + degree T (snd e) = s) ranked
                  = filter (\<lambda>e. degree T (fst e) + degree T (snd e) = s) candidates) \<and>
           run_state selection_scored solve cycle_basis G (Suc k) =
             Some \<lparr>iteration = iteration st + 1,
                   edges_forcees = edges_forcees st
                     @ take (min (length candidates) (nat (n_quota st))) ranked,
                   n_quota = max 1 (n_quota st - 1)\<rparr>"
proof (intro exI conjI allI)
  let ?score = "\<lambda>e. degree T (fst e) + degree T (snd e)"
  let ?ranked = "sort_key ?score candidates"
  show "mset ?ranked = mset candidates" by simp
  show "sorted (map ?score ?ranked)" by (rule sorted_sort_key)
  show "filter (\<lambda>e. ?score e = s) ?ranked = filter (\<lambda>e. ?score e = s) candidates" for s
    by (rule sort_key_stable)
  from run_state_quota [OF assms(2)] have q: "1 \<le> n_quota st" .
  have nc: "\<not> connected (candidate_graph G sol_edges)" using assms(5,6) by simp
  have cd: "candidates = map sorted_tuple
      (filter (\<lambda>e. e \<notin> (adjacent (candidate_graph G sol_edges))\<^sup>*) (edges G))"
    using assms(5,7) by simp
  note step = iteration_step_repair [OF assms(1,3,4) nc q cd]
  have "score_arete (candidate_graph G sol_edges) = ?score"
    by (rule ext) (simp add: score_arete_def assms(5))
  with step
  have "iteration_step selection_scored solve cycle_basis G (fst (analyser_structure G))
          (snd (analyser_structure G)) st =
        Continue \<lparr>iteration = iteration st + 1,
                  edges_forcees = edges_forcees st
                     @ take (min (length candidates) (nat (n_quota st))) ?ranked,
                  n_quota = max 1 (n_quota st - 1)\<rparr>"
    by (simp only:)
  with assms(2)
  show "run_state selection_scored solve cycle_basis G (Suc k) =
             Some \<lparr>iteration = iteration st + 1,
                   edges_forcees = edges_forcees st
                     @ take (min (length candidates) (nat (n_quota st))) ?ranked,
                   n_quota = max 1 (n_quota st - 1)\<rparr>"
    by (simp add: run_state_Suc)
qed

theorem scored_repair_step_witness:
  "wf_graph G6 \<and>
   run_state selection_scored (scripted_solver G6_script) G6_basis G6 0
     = Some \<lparr>iteration = 0, edges_forcees = [], n_quota = 1\<rparr> \<and>
   resoudre_ilp_iteration (scripted_solver G6_script) 1 G6_basis G6 (snd (analyser_structure G6))
     (fst (analyser_structure G6)) [] = Inr (Some [(1, 2), (1, 3), (2, 3), (4, 5), (5, 6)]) \<and>
   \<not> connected (candidate_graph G6 [(1, 2), (1, 3), (2, 3), (4, 5), (5, 6)]) \<and>
   [(1, 5), (2, 6), (3, 4)] = map sorted_tuple
     (filter (\<lambda>e. e \<notin> (adjacent (candidate_graph G6 [(1, 2), (1, 3), (2, 3), (4, 5), (5, 6)]))\<^sup>*)
        (edges G6)) \<and>
   (\<exists>ranked.
      mset ranked = mset [(1, 5), (2, 6), (3, 4)] \<and>
      run_state selection_scored (scripted_solver G6_script) G6_basis G6 (Suc 0) =
        Some \<lparr>iteration = 1, edges_forcees = [] @ take (min 3 (nat 1)) ranked, n_quota = max 1 (1 - 1)\<rparr>) \<and>
   run_state selection_scored (scripted_solver G6_script) G6_basis G6 (Suc 0)
     = Some \<lparr>iteration = 1, edges_forcees = [(2, 6)], n_quota = 1\<rparr>"
proof -
  let ?sol = "[(1, 2), (1, 3), (2, 3), (4, 5), (5, 6)] :: edge list"
  let ?T = "candidate_graph G6 ?sol"
  let ?st = "\<lparr>iteration = 0, edges_forcees = [], n_quota = 1\<rparr>"
  have it: "resoudre_ilp_iteration (scripted_solver G6_script) (iteration ?st + 1) G6_basis G6
      (snd (analyser_structure G6)) (fst (analyser_structure G6)) (edges_forcees ?st) = Inr (Some ?sol)"
    using G6_iteration_1 by simp
  note cand = ilp_iteration_candidate [OF G6_wf G6_iteration_1]
  have "nodes G6 \<noteq> []" by (simp add: G6_def)
  then have ne: "nodes ?T \<noteq> []" by (simp add: cand(1))
  have nc: "\<not> connected ?T"
    using is_connected_iff [OF cand(2) ne] G6_first_disconnected by simp
  have "\<forall>(u, v) \<in> set (edges G6). u \<in> set (nodes ?T) \<and> v \<in> set (nodes ?T)"
    using G6_wf by (simp add: cand(1) wf_graph_def)
  from candidates_of_components [OF cand(2) this] G6_first_candidates
  have cd: "[(1, 5), (2, 6), (3, 4)]
      = map sorted_tuple (filter (\<lambda>e. e \<notin> (adjacent ?T)\<^sup>*) (edges G6))"
    by simp
  have sne: "?sol \<noteq> []" by simp
  have cne: "[(1, 5), (2, 6), (3, 4)] \<noteq> ([] :: edge list)" by simp
  from scored_repair_step [OF G6_wf G6_run_0 it sne refl nc cd cne]
  obtain ranked where
    "mset ranked = mset [(1, 5), (2, 6), (3, 4)]"
    "run_state selection_scored (scripted_solver G6_script) G6_basis G6 (Suc 0) =
        Some \<lparr>iteration = 1, edges_forcees = [] @ take (min 3 (nat 1)) ranked, n_quota = max 1 (1 - 1)\<rparr>"
    by auto
  with G6_wf G6_run_0 G6_iteration_1 nc cd G6_run_1 show ?thesis by blast
qed

section \<open>Passes that go on\<close>

lemma run_state_step:
  assumes "run_state select solve cb G i = Some s"
    and "iteration_step select solve cb G (fst (analyser_structure G)) (snd (analyser_structure G)) s
           = Continue s'"
  shows "run_state select solve cb G (Suc i) = Some s'"
  using assms by (simp add: run_state_Suc)

lemma iteration_step_Continue_candidate:
  assumes "iteration_step select solve cb G ponts parts st = Continue st'"
  shows "\<exists>sol. resoudre_ilp_iteration solve (iteration st + 1) cb G parts ponts (edges_forcees st)
                 = Inr (Some sol) \<and>
               sol \<noteq> [] \<and> is_connected (candidate_graph G sol) = Inr False"
  using assms unfolding iteration_step_def Let_def
  by (auto split: sum.splits option.splits if_splits bool.splits)

lemma candidate_not_connected:
  assumes "wf_graph G"
    and "resoudre_ilp_iteration solve it cb G parts ponts forced = Inr (Some sol)"
    and "sol \<noteq> []" and "is_connected (candidate_graph G sol) = Inr False"
  shows "\<not> connected (candidate_graph G sol)"
proof -
  note cand = ilp_iteration_candidate [OF assms(1,2)]
  have "nodes (candidate_graph G sol) \<noteq> []"
    using selection_nodes [OF assms(1) cand(3) assms(3)] by (simp add: cand(1))
  from is_connected_iff [OF cand(2) this] assms(4) show ?thesis by simp
qed

lemma scored_pass_continues:
  assumes "wf_graph G"
    and "run_state selection_scored solve cb G i = Some s"
    and "resoudre_ilp_iteration solve (iteration s + 1) cb G (snd (analyser_structure G))
           (fst (analyser_structure G)) (edges_forcees s) = Inr (Some sol)"
    and "sol \<noteq> []" and "\<not> connected (candidate_graph G sol)"
  shows "run_state selection_scored solve cb G (Suc i) =
           Some \<lparr>iteration = iteration s + 1,
                 edges_forcees = edges_forcees s @
                   take (min (length (map sorted_tuple
                           (filter (\<lambda>e. e \<notin> (adjacent (candidate_graph G sol))\<^sup>*) (edges G))))
                         (nat (n_quota s)))
                     (sort_key (score_arete (candidate_graph G sol))
                        (map sorted_tuple
                           (filter (\<lambda>e. e \<notin> (adjacent (candidate_graph G sol))\<^sup>*) (edges G)))),
                 n_quota = max 1 (n_quota s - 1)\<rparr>"
proof -
  from run_state_quota [OF assms(2)] have q: "1 \<le> n_quota s" .
  from iteration_step_repair [OF assms(1,3,4,5) q refl]
  show ?thesis by (rule run_state_step [OF assms(2)])
qed

lemma candidate_of_continuing_pass:
  assumes "wf_graph G"
    and "run_state selection_scored solve cb G k = Some st"
    and "run_state selection_scored solve cb G (Suc k) = Some st'"
  shows "\<exists>sol. resoudre_ilp_iteration solve (iteration st + 1) cb G (snd (analyser_structure G))
                  (fst (analyser_structure G)) (edges_forcees st) = Inr (Some sol) \<and>
               \<not> connected (candidate_graph G sol) \<and>
               edges_forcees st' = edges_forcees st @
                 take (min (length (map sorted_tuple
                           (filter (\<lambda>f. f \<notin> (adjacent (candidate_graph G sol))\<^sup>*) (edges G))))
                         (nat (n_quota st)))
                   (sort_key (score_arete (candidate_graph G sol))
                      (map sorted_tuple
                         (filter (\<lambda>f. f \<notin> (adjacent (candidate_graph G sol))\<^sup>*) (edges G))))"
proof -
  from assms(2,3) have step: "iteration_step selection_scored solve cb G (fst (analyser_structure G))
      (snd (analyser_structure G)) st = Continue st'"
    by (auto simp: run_state_Suc)
  from iteration_step_Continue_candidate [OF step] obtain sol where
    sol: "resoudre_ilp_iteration solve (iteration st + 1) cb G (snd (analyser_structure G))
            (fst (analyser_structure G)) (edges_forcees st) = Inr (Some sol)"
    and ne: "sol \<noteq> []" and dis: "is_connected (candidate_graph G sol) = Inr False"
    by auto
  from candidate_not_connected [OF assms(1) sol ne dis]
  have nc: "\<not> connected (candidate_graph G sol)" .
  from scored_pass_continues [OF assms(1,2) sol ne nc] assms(3)
  have "edges_forcees st' = edges_forcees st @
                 take (min (length (map sorted_tuple
                           (filter (\<lambda>f. f \<notin> (adjacent (candidate_graph G sol))\<^sup>*) (edges G))))
                         (nat (n_quota st)))
                   (sort_key (score_arete (candidate_graph G sol))
                      (map sorted_tuple
                         (filter (\<lambda>f. f \<notin> (adjacent (candidate_graph G sol))\<^sup>*) (edges G))))"
    by auto
  with sol nc show ?thesis by blast
qed

subsection \<open>The run on the sixteen-vertex instance\<close>

lemma G16_wf: "wf_graph G16"
  by code_simp

lemma G16_analysis: "analyser_structure G16 = (G16_tail, G16_parts)"
  by code_simp

lemma G16_initial: "initial_state G16 = \<lparr>iteration = 0, edges_forcees = [], n_quota = 2\<rparr>"
  by code_simp

lemma G16_iteration_1:
  "resoudre_ilp_iteration G16_solver 1 G6_basis G16 G16_parts G16_tail []
     = Inr (Some G16_first)"
  by code_simp

lemma G16_iteration_2:
  "resoudre_ilp_iteration G16_solver 2 G6_basis G16 G16_parts G16_tail
     [(3, 4), (1, 5)] = Inr (Some G16_second)"
  by code_simp

lemma G16_first_disconnected: "is_connected (candidate_graph G16 G16_first) = Inr False"
  by code_simp

lemma G16_second_disconnected: "is_connected (candidate_graph G16 G16_second) = Inr False"
  by code_simp

lemma G16_step_1:
  "iteration_step selection_scored G16_solver G6_basis G16 G16_tail G16_parts
     \<lparr>iteration = 0, edges_forcees = [], n_quota = 2\<rparr>
     = Continue \<lparr>iteration = 1, edges_forcees = [(3, 4), (1, 5)], n_quota = 1\<rparr>"
  by code_simp

lemma G16_step_2:
  "iteration_step selection_scored G16_solver G6_basis G16 G16_tail G16_parts
     \<lparr>iteration = 1, edges_forcees = [(3, 4), (1, 5)], n_quota = 1\<rparr>
     = Continue \<lparr>iteration = 2, edges_forcees = [(3, 4), (1, 5), (5, 6)], n_quota = 1\<rparr>"
  by code_simp

lemma G16_step_3:
  "iteration_step selection_scored G16_solver G6_basis G16 G16_tail G16_parts
     \<lparr>iteration = 2, edges_forcees = [(3, 4), (1, 5), (5, 6)], n_quota = 1\<rparr>
     = Return (Some T16)"
  by code_simp

lemma G16_run_0:
  "run_state selection_scored G16_solver G6_basis G16 0
     = Some \<lparr>iteration = 0, edges_forcees = [], n_quota = 2\<rparr>"
  by (simp add: run_state_def G16_analysis G16_initial)

lemma G16_run_1:
  "run_state selection_scored G16_solver G6_basis G16 (Suc 0)
     = Some \<lparr>iteration = 1, edges_forcees = [(3, 4), (1, 5)], n_quota = 1\<rparr>"
proof (rule run_state_step [OF G16_run_0])
  show "iteration_step selection_scored G16_solver G6_basis G16
      (fst (analyser_structure G16)) (snd (analyser_structure G16))
      \<lparr>iteration = 0, edges_forcees = [], n_quota = 2\<rparr>
      = Continue \<lparr>iteration = 1, edges_forcees = [(3, 4), (1, 5)], n_quota = 1\<rparr>"
    using G16_step_1 by (simp add: G16_analysis)
qed

lemma G16_run_2:
  "run_state selection_scored G16_solver G6_basis G16 (Suc (Suc 0))
     = Some \<lparr>iteration = 2, edges_forcees = [(3, 4), (1, 5), (5, 6)], n_quota = 1\<rparr>"
proof (rule run_state_step [OF G16_run_1])
  show "iteration_step selection_scored G16_solver G6_basis G16
      (fst (analyser_structure G16)) (snd (analyser_structure G16))
      \<lparr>iteration = 1, edges_forcees = [(3, 4), (1, 5)], n_quota = 1\<rparr>
      = Continue \<lparr>iteration = 2, edges_forcees = [(3, 4), (1, 5), (5, 6)], n_quota = 1\<rparr>"
    using G16_step_2 by (simp add: G16_analysis)
qed

lemma G16_returns:
  "resoudre_mbvst G16_solver G6_basis G16 = Some (Inr (Some T16))"
proof -
  have "iteration_step selection_scored G16_solver G6_basis G16
      (fst (analyser_structure G16)) (snd (analyser_structure G16))
      \<lparr>iteration = 2, edges_forcees = [(3, 4), (1, 5), (5, 6)], n_quota = 1\<rparr> = Return (Some T16)"
    using G16_step_3 by (simp add: G16_analysis)
  from run_returns [OF G16_run_2 this] show ?thesis by (simp add: resoudre_mbvst_def)
qed

lemma G16_call_1:
  "resoudre_ilp_iteration G16_solver
     (iteration \<lparr>iteration = 0, edges_forcees = [], n_quota = 2\<rparr> + 1) G6_basis G16
     (snd (analyser_structure G16)) (fst (analyser_structure G16))
     (edges_forcees \<lparr>iteration = 0, edges_forcees = [], n_quota = 2\<rparr>) = Inr (Some G16_first)"
  using G16_iteration_1 by (simp add: G16_analysis)

lemma G16_first_nonempty: "G16_first \<noteq> []"
  by (simp add: G16_first_def)

lemma G16_first_not_connected: "\<not> connected (candidate_graph G16 G16_first)"
  by (rule candidate_not_connected [OF G16_wf G16_call_1 G16_first_nonempty G16_first_disconnected])

text \<open>Without the bridges among its arguments, the same call selects no edge 6-7.\<close>

lemma G16_call_without_bridges:
  "resoudre_ilp_iteration G16_solver 1 G6_basis G16 G16_parts [] [] = Inr (Some G16_without_bridge)"
  by code_simp

lemma G16_without_bridge_lacks: "(6, 7) \<notin> set G16_without_bridge"
  by (simp add: G16_without_bridge_def)

lemma analysed_bridges: "fst (analyser_structure G) = bridges G"
  by (simp add: analyser_structure_def)

lemma G16_bridge: "(6, 7) \<in> set (bridges G16)" "(6, 7) \<in> set (edges G16)"
proof -
  have "bridges G16 = G16_tail"
    using analysed_bridges [of G16] by (simp only: G16_analysis fst_conv)
  then show "(6, 7) \<in> set (bridges G16)" by (simp add: G16_tail_def)
  show "(6, 7) \<in> set (edges G16)" by (simp add: G16_def)
qed

lemma G16_separated:
  "(fst (6 :: node, 7 :: node), snd (6 :: node, 7 :: node)) \<notin> (adjacent (remove_edge (6, 7) G16))\<^sup>*"
  using bridges_iff [OF G16_wf G16_bridge(2)] G16_bridge(1) by (simp only:)

section \<open>Invariants of the loop state\<close>

text \<open>
  C5. The forced-edge list only grows: the list at the start of pass \<open>i + 2\<close> is the
  list at the start of pass \<open>i + 1\<close> with edges appended, so every edge forced at one
  pass is still forced at the next. This holds for every way of choosing the new edges,
  the scored one of \<open>ilp_updated.py\<close> and the random one of \<open>ilp_solver.py\<close>.
\<close>

theorem forced_edges_non_decreasing:
  assumes "run_state select solve cycle_basis G i = Some s"
    and "run_state select solve cycle_basis G (Suc i) = Some s'"
  shows "set (edges_forcees s) \<subseteq> set (edges_forcees s') \<and>
         (\<exists>new_edges. edges_forcees s' = edges_forcees s @ new_edges)"
proof -
  from assms have "iteration_step select solve cycle_basis G (fst (analyser_structure G))
      (snd (analyser_structure G)) s = Continue s'"
    by (auto simp: run_state_Suc)
  from iteration_step_Continue(1) [OF this] show ?thesis by auto
qed

theorem forced_edges_non_decreasing_witness:
  "run_state selection_scored G16_solver G6_basis G16 (Suc 0)
     = Some \<lparr>iteration = 1, edges_forcees = [(3, 4), (1, 5)], n_quota = 1\<rparr> \<and>
   run_state selection_scored G16_solver G6_basis G16 (Suc (Suc 0))
     = Some \<lparr>iteration = 2, edges_forcees = [(3, 4), (1, 5), (5, 6)], n_quota = 1\<rparr> \<and>
   set (edges_forcees \<lparr>iteration = 1, edges_forcees = [(3, 4), (1, 5)], n_quota = 1\<rparr>)
     \<subseteq> set (edges_forcees \<lparr>iteration = 2, edges_forcees = [(3, 4), (1, 5), (5, 6)], n_quota = 1\<rparr>) \<and>
   (\<exists>new_edges.
      edges_forcees \<lparr>iteration = 2, edges_forcees = [(3, 4), (1, 5), (5, 6)], n_quota = 1\<rparr>
        = edges_forcees \<lparr>iteration = 1, edges_forcees = [(3, 4), (1, 5)], n_quota = 1\<rparr> @ new_edges) \<and>
   (3, 4) \<in> set (edges_forcees \<lparr>iteration = 1, edges_forcees = [(3, 4), (1, 5)], n_quota = 1\<rparr>) \<and>
   (1, 5) \<in> set (edges_forcees \<lparr>iteration = 1, edges_forcees = [(3, 4), (1, 5)], n_quota = 1\<rparr>)"
proof -
  note t = forced_edges_non_decreasing [OF G16_run_1 G16_run_2]
  have "(3, 4) \<in> set (edges_forcees \<lparr>iteration = 1, edges_forcees = [(3, 4), (1, 5)], n_quota = 1\<rparr>)"
    "(1, 5) \<in> set (edges_forcees \<lparr>iteration = 1, edges_forcees = [(3, 4), (1, 5)], n_quota = 1\<rparr>)"
    by simp_all
  with t G16_run_1 G16_run_2 show ?thesis by blast
qed

text \<open>
  C4. The run starts with the quota \<open>max(1, floor(sqrt(n) / 2))\<close> for \<open>n\<close> vertices. At
  the start of every pass the quota is at least 1, and a pass that goes on leaves
  \<open>max(1, quota - 1)\<close>, which is not larger than before. A pass whose candidate is not
  connected does go on: the next state exists and its quota is \<open>max(1, quota - 1)\<close>.
\<close>

theorem quota_floor_and_update:
  "run_state select solve cycle_basis G 0 = Some (initial_state G) \<and>
   n_quota (initial_state G) = max 1 \<lfloor>sqrt (real (length (nodes G))) / 2\<rfloor> \<and>
   (\<forall>i s. run_state select solve cycle_basis G i = Some s \<longrightarrow>
      1 \<le> n_quota s \<and>
      (\<forall>s'. run_state select solve cycle_basis G (Suc i) = Some s' \<longrightarrow>
         n_quota s' = max 1 (n_quota s - 1) \<and> n_quota s' \<le> n_quota s \<and> 1 \<le> n_quota s')) \<and>
   (wf_graph G \<longrightarrow>
      (\<forall>i s sol_edges.
         run_state selection_scored solve cycle_basis G i = Some s \<and>
         resoudre_ilp_iteration solve (iteration s + 1) cycle_basis G (snd (analyser_structure G))
           (fst (analyser_structure G)) (edges_forcees s) = Inr (Some sol_edges) \<and>
         sol_edges \<noteq> [] \<and> \<not> connected (candidate_graph G sol_edges) \<longrightarrow>
         (\<exists>s'. run_state selection_scored solve cycle_basis G (Suc i) = Some s' \<and>
               iteration s' = iteration s + 1 \<and>
               n_quota s' = max 1 (n_quota s - 1))))"
proof (intro conjI allI impI)
  show "run_state select solve cycle_basis G 0 = Some (initial_state G)"
    by (simp add: run_state_def case_prod_beta)
next
  show "n_quota (initial_state G) = max 1 \<lfloor>sqrt (real (length (nodes G))) / 2\<rfloor>"
    by (simp add: initial_state_def initial_quota_def number_of_nodes_def)
next
  fix i s assume "run_state select solve cycle_basis G i = Some s"
  then show "1 \<le> n_quota s" by (rule run_state_quota)
next
  fix i s s'
  assume s: "run_state select solve cycle_basis G i = Some s"
    and s': "run_state select solve cycle_basis G (Suc i) = Some s'"
  from s have q: "1 \<le> n_quota s" by (rule run_state_quota)
  from s s' have "iteration_step select solve cycle_basis G (fst (analyser_structure G))
      (snd (analyser_structure G)) s = Continue s'"
    by (auto simp: run_state_Suc)
  from iteration_step_Continue(2) [OF this] q
  show "n_quota s' = max 1 (n_quota s - 1)" "n_quota s' \<le> n_quota s" "1 \<le> n_quota s'"
    by auto
next
  fix i s sol_edges
  assume w: "wf_graph G"
    and h: "run_state selection_scored solve cycle_basis G i = Some s \<and>
         resoudre_ilp_iteration solve (iteration s + 1) cycle_basis G (snd (analyser_structure G))
           (fst (analyser_structure G)) (edges_forcees s) = Inr (Some sol_edges) \<and>
         sol_edges \<noteq> [] \<and> \<not> connected (candidate_graph G sol_edges)"
  from h have h1: "run_state selection_scored solve cycle_basis G i = Some s"
    and h2: "resoudre_ilp_iteration solve (iteration s + 1) cycle_basis G (snd (analyser_structure G))
           (fst (analyser_structure G)) (edges_forcees s) = Inr (Some sol_edges)"
    and h3: "sol_edges \<noteq> []" and h4: "\<not> connected (candidate_graph G sol_edges)"
    by simp_all
  from scored_pass_continues [OF w h1 h2 h3 h4]
  show "\<exists>s'. run_state selection_scored solve cycle_basis G (Suc i) = Some s' \<and>
               iteration s' = iteration s + 1 \<and>
               n_quota s' = max 1 (n_quota s - 1)"
    by simp
qed

theorem quota_floor_and_update_witness:
  "run_state selection_scored G16_solver G6_basis G16 0
     = Some \<lparr>iteration = 0, edges_forcees = [], n_quota = 2\<rparr> \<and>
   n_quota (initial_state G16) = max 1 \<lfloor>sqrt (real (length (nodes G16))) / 2\<rfloor> \<and>
   n_quota (initial_state G16) = 2 \<and>
   wf_graph G16 \<and>
   resoudre_ilp_iteration G16_solver
     (iteration \<lparr>iteration = 0, edges_forcees = [], n_quota = 2\<rparr> + 1) G6_basis G16
     (snd (analyser_structure G16)) (fst (analyser_structure G16))
     (edges_forcees \<lparr>iteration = 0, edges_forcees = [], n_quota = 2\<rparr>) = Inr (Some G16_first) \<and>
   G16_first \<noteq> [] \<and> \<not> connected (candidate_graph G16 G16_first) \<and>
   (\<exists>s'. run_state selection_scored G16_solver G6_basis G16 (Suc 0) = Some s' \<and>
         iteration s' = iteration \<lparr>iteration = 0, edges_forcees = [], n_quota = 2\<rparr> + 1 \<and>
         n_quota s' = max 1 (n_quota \<lparr>iteration = 0, edges_forcees = [], n_quota = 2\<rparr> - 1)) \<and>
   run_state selection_scored G16_solver G6_basis G16 (Suc 0)
     = Some \<lparr>iteration = 1, edges_forcees = [(3, 4), (1, 5)], n_quota = 1\<rparr> \<and>
   n_quota \<lparr>iteration = 1, edges_forcees = [(3, 4), (1, 5)], n_quota = 1\<rparr>
     = max 1 (n_quota \<lparr>iteration = 0, edges_forcees = [], n_quota = 2\<rparr> - 1) \<and>
   run_state selection_scored G16_solver G6_basis G16 (Suc (Suc 0))
     = Some \<lparr>iteration = 2, edges_forcees = [(3, 4), (1, 5), (5, 6)], n_quota = 1\<rparr> \<and>
   n_quota \<lparr>iteration = 2, edges_forcees = [(3, 4), (1, 5), (5, 6)], n_quota = 1\<rparr>
     = max 1 (n_quota \<lparr>iteration = 1, edges_forcees = [(3, 4), (1, 5)], n_quota = 1\<rparr> - 1)"
proof -
  note t = quota_floor_and_update [where G = G16 and select = selection_scored
      and solve = G16_solver and cycle_basis = G6_basis]
  from t have a: "n_quota (initial_state G16) = max 1 \<lfloor>sqrt (real (length (nodes G16))) / 2\<rfloor>"
    by blast
  have a2: "n_quota (initial_state G16) = 2" by (simp add: G16_initial)
  from t G16_wf G16_run_0 G16_call_1 G16_first_nonempty G16_first_not_connected
  have b: "\<exists>s'. run_state selection_scored G16_solver G6_basis G16 (Suc 0) = Some s' \<and>
         iteration s' = iteration \<lparr>iteration = 0, edges_forcees = [], n_quota = 2\<rparr> + 1 \<and>
         n_quota s' = max 1 (n_quota \<lparr>iteration = 0, edges_forcees = [], n_quota = 2\<rparr> - 1)"
    by blast
  from t G16_run_0 G16_run_1
  have c: "n_quota \<lparr>iteration = 1, edges_forcees = [(3, 4), (1, 5)], n_quota = 1\<rparr>
     = max 1 (n_quota \<lparr>iteration = 0, edges_forcees = [], n_quota = 2\<rparr> - 1)"
    by blast
  from t G16_run_1 G16_run_2
  have d: "n_quota \<lparr>iteration = 2, edges_forcees = [(3, 4), (1, 5), (5, 6)], n_quota = 1\<rparr>
     = max 1 (n_quota \<lparr>iteration = 1, edges_forcees = [(3, 4), (1, 5)], n_quota = 1\<rparr> - 1)"
    by blast
  from a a2 b c d G16_wf G16_run_0 G16_run_1 G16_run_2 G16_call_1 G16_first_nonempty
    G16_first_not_connected
  show ?thesis by blast
qed

section \<open>Bridges in the candidates of the loop\<close>

text \<open>
  C6. Under the solver's contract, an edge of \<open>G\<close> whose removal separates its two
  endpoints (a bridge) is an edge of every candidate: of the candidate of every call of
  the iteration with the analysed bridges, whatever edges are forced; of the candidate of
  every pass of the run that goes on, which is the graph, not connected, whose
  cross-component edges that pass ranks and forces; and of the tree the run returns.
\<close>

theorem bridges_in_every_candidate:
  assumes "wf_graph G" and "sound_solver solve"
    and "e \<in> set (edges G)" and "(fst e, snd e) \<notin> (adjacent (remove_edge e G))\<^sup>*"
  shows "(\<forall>it forced sol_edges.
            resoudre_ilp_iteration solve it cycle_basis G (snd (analyser_structure G))
              (fst (analyser_structure G)) forced = Inr (Some sol_edges) \<longrightarrow>
            has_edge (candidate_graph G sol_edges) e) \<and>
         (\<forall>k st st'.
            run_state selection_scored solve cycle_basis G k = Some st \<and>
            run_state selection_scored solve cycle_basis G (Suc k) = Some st' \<longrightarrow>
            (\<exists>sol_edges.
               resoudre_ilp_iteration solve (iteration st + 1) cycle_basis G
                 (snd (analyser_structure G)) (fst (analyser_structure G)) (edges_forcees st)
                 = Inr (Some sol_edges) \<and>
               has_edge (candidate_graph G sol_edges) e \<and>
               \<not> connected (candidate_graph G sol_edges) \<and>
               edges_forcees st' = edges_forcees st @
                 take (min (length (map sorted_tuple
                           (filter (\<lambda>f. f \<notin> (adjacent (candidate_graph G sol_edges))\<^sup>*) (edges G))))
                         (nat (n_quota st)))
                   (sort_key (score_arete (candidate_graph G sol_edges))
                      (map sorted_tuple
                         (filter (\<lambda>f. f \<notin> (adjacent (candidate_graph G sol_edges))\<^sup>*)
                            (edges G)))))) \<and>
         (\<forall>T. resoudre_mbvst solve cycle_basis G = Some (Inr (Some T)) \<longrightarrow> has_edge T e)"
proof -
  from assms(3,4) have "e \<in> set (bridges G)" by (simp add: bridges_iff [OF assms(1,3)])
  then have p: "e \<in> set (fst (analyser_structure G)) \<union> set forced" for forced
    by (simp add: analyser_structure_def)
  from assms(3) have h: "has_edge G e" by (simp add: has_edge_def)
  have direct: "has_edge (candidate_graph G sol) e"
    if "resoudre_ilp_iteration solve it cycle_basis G (snd (analyser_structure G))
          (fst (analyser_structure G)) forced = Inr (Some sol)" for it forced sol
    using candidate_forced [OF assms(1,2) that p h] .
  show ?thesis
  proof (intro conjI allI impI)
    fix it forced sol_edges
    assume "resoudre_ilp_iteration solve it cycle_basis G (snd (analyser_structure G))
              (fst (analyser_structure G)) forced = Inr (Some sol_edges)"
    then show "has_edge (candidate_graph G sol_edges) e" by (rule direct)
  next
    fix k st st'
    assume "run_state selection_scored solve cycle_basis G k = Some st \<and>
            run_state selection_scored solve cycle_basis G (Suc k) = Some st'"
    then have r: "run_state selection_scored solve cycle_basis G k = Some st"
      "run_state selection_scored solve cycle_basis G (Suc k) = Some st'"
      by simp_all
    from candidate_of_continuing_pass [OF assms(1) r] obtain sol where
      sol: "resoudre_ilp_iteration solve (iteration st + 1) cycle_basis G
                 (snd (analyser_structure G)) (fst (analyser_structure G)) (edges_forcees st)
                 = Inr (Some sol)"
      and rest: "\<not> connected (candidate_graph G sol)"
        "edges_forcees st' = edges_forcees st @
                 take (min (length (map sorted_tuple
                           (filter (\<lambda>f. f \<notin> (adjacent (candidate_graph G sol))\<^sup>*) (edges G))))
                         (nat (n_quota st)))
                   (sort_key (score_arete (candidate_graph G sol))
                      (map sorted_tuple
                         (filter (\<lambda>f. f \<notin> (adjacent (candidate_graph G sol))\<^sup>*) (edges G))))"
      by blast
    from direct [OF sol] sol rest
    show "\<exists>sol_edges.
               resoudre_ilp_iteration solve (iteration st + 1) cycle_basis G
                 (snd (analyser_structure G)) (fst (analyser_structure G)) (edges_forcees st)
                 = Inr (Some sol_edges) \<and>
               has_edge (candidate_graph G sol_edges) e \<and>
               \<not> connected (candidate_graph G sol_edges) \<and>
               edges_forcees st' = edges_forcees st @
                 take (min (length (map sorted_tuple
                           (filter (\<lambda>f. f \<notin> (adjacent (candidate_graph G sol_edges))\<^sup>*) (edges G))))
                         (nat (n_quota st)))
                   (sort_key (score_arete (candidate_graph G sol_edges))
                      (map sorted_tuple
                         (filter (\<lambda>f. f \<notin> (adjacent (candidate_graph G sol_edges))\<^sup>*)
                            (edges G))))"
      by blast
  next
    fix T assume "resoudre_mbvst solve cycle_basis G = Some (Inr (Some T))"
    then have "resoudre_mbvst_with selection_scored solve cycle_basis G = Some (Inr (Some T))"
      by (simp add: resoudre_mbvst_def)
    from returned_tree [OF this] obtain k :: nat and st :: loop_state and sol where
      sol: "resoudre_ilp_iteration solve (iteration st + 1) cycle_basis G (snd (analyser_structure G))
             (fst (analyser_structure G)) (edges_forcees st) = Inr (Some sol)"
      and T: "T = candidate_graph G sol"
      by auto
    from direct [OF sol] show "has_edge T e" by (simp add: T)
  qed
qed

theorem bridges_in_every_candidate_witness:
  "wf_graph G16 \<and> sound_solver G16_solver \<and> (6, 7) \<in> set (edges G16) \<and>
   (fst (6 :: node, 7 :: node), snd (6 :: node, 7 :: node)) \<notin> (adjacent (remove_edge (6, 7) G16))\<^sup>* \<and>
   run_state selection_scored G16_solver G6_basis G16 0
     = Some \<lparr>iteration = 0, edges_forcees = [], n_quota = 2\<rparr> \<and>
   run_state selection_scored G16_solver G6_basis G16 (Suc 0)
     = Some \<lparr>iteration = 1, edges_forcees = [(3, 4), (1, 5)], n_quota = 1\<rparr> \<and>
   resoudre_ilp_iteration G16_solver
     (iteration \<lparr>iteration = 0, edges_forcees = [], n_quota = 2\<rparr> + 1) G6_basis G16
     (snd (analyser_structure G16)) (fst (analyser_structure G16))
     (edges_forcees \<lparr>iteration = 0, edges_forcees = [], n_quota = 2\<rparr>) = Inr (Some G16_first) \<and>
   has_edge (candidate_graph G16 G16_first) (6, 7) \<and>
   \<not> connected (candidate_graph G16 G16_first) \<and>
   (\<exists>sol_edges.
      resoudre_ilp_iteration G16_solver
        (iteration \<lparr>iteration = 0, edges_forcees = [], n_quota = 2\<rparr> + 1) G6_basis G16
        (snd (analyser_structure G16)) (fst (analyser_structure G16))
        (edges_forcees \<lparr>iteration = 0, edges_forcees = [], n_quota = 2\<rparr>) = Inr (Some sol_edges) \<and>
      has_edge (candidate_graph G16 sol_edges) (6, 7) \<and>
      \<not> connected (candidate_graph G16 sol_edges)) \<and>
   resoudre_mbvst G16_solver G6_basis G16 = Some (Inr (Some T16)) \<and>
   has_edge T16 (6, 7) \<and>
   resoudre_ilp_iteration G16_solver 1 G6_basis G16 G16_parts [] [] = Inr (Some G16_without_bridge) \<and>
   (6, 7) \<notin> set G16_without_bridge"
proof -
  note t = bridges_in_every_candidate [where cycle_basis = G6_basis,
      OF G16_wf G16_solver_sound G16_bridge(2) G16_separated]
  note t1 = t [THEN conjunct1, rule_format]
  note t2 = t [THEN conjunct2, THEN conjunct1, rule_format]
  note t3 = t [THEN conjunct2, THEN conjunct2, rule_format]
  have a: "has_edge (candidate_graph G16 G16_first) (6, 7)"
    by (rule t1 [OF G16_call_1])
  have b: "\<exists>sol_edges.
      resoudre_ilp_iteration G16_solver
        (iteration \<lparr>iteration = 0, edges_forcees = [], n_quota = 2\<rparr> + 1) G6_basis G16
        (snd (analyser_structure G16)) (fst (analyser_structure G16))
        (edges_forcees \<lparr>iteration = 0, edges_forcees = [], n_quota = 2\<rparr>) = Inr (Some sol_edges) \<and>
      has_edge (candidate_graph G16 sol_edges) (6, 7) \<and>
      \<not> connected (candidate_graph G16 sol_edges)"
  proof -
    from t2 [OF conjI [OF G16_run_0 G16_run_1]] obtain sol where
      s: "resoudre_ilp_iteration G16_solver
        (iteration \<lparr>iteration = 0, edges_forcees = [], n_quota = 2\<rparr> + 1) G6_basis G16
        (snd (analyser_structure G16)) (fst (analyser_structure G16))
        (edges_forcees \<lparr>iteration = 0, edges_forcees = [], n_quota = 2\<rparr>) = Inr (Some sol)"
        "has_edge (candidate_graph G16 sol) (6, 7)"
        "\<not> connected (candidate_graph G16 sol)"
      by (elim exE conjE)
    show ?thesis by (intro exI [of _ sol] conjI) (rule s)+
  qed
  have c: "has_edge T16 (6, 7)" by (rule t3 [OF G16_returns])
  show ?thesis
    using a b c G16_wf G16_solver_sound G16_bridge(2) G16_separated G16_run_0 G16_run_1
      G16_call_1 G16_first_not_connected G16_returns G16_call_without_bridges
      G16_without_bridge_lacks
    by (intro conjI) assumption+
qed

end
